theory Spec2Isabelle
  imports Main "HOL-Library.Word"
begin

unbundle bit_operations_syntax

section \<open>Diagnostics and results\<close>

text \<open>
  Every \<open>emitError\<close> site of \<open>BytecodeReader.cpp\<close> is one constructor of \<open>diag\<close>; a function
  returning \<open>LogicalResult\<close> returns \<open>Inl d\<close> where the source emits \<open>d\<close> and returns
  \<open>failure()\<close>, and \<open>Inr\<close> of its out-parameters where it returns \<open>success()\<close>.
\<close>

type_synonym byte = "8 word"
type_synonym u64 = "64 word"
type_synonym u32 = "32 word"

datatype diag =
    EndOfBytecode
  | ParseBytesShort nat nat
  | SkipBytesShort nat nat
  | NoNullCharacter
  | InvalidSectionID nat
  | InvalidIndex string u64
  | StringSizeExceeds
  | StringTrailingData
  | NotBytecodeFile
  | VersionOlder u64 u64
  | VersionNewer u64 u64
  | DuplicateSection nat
  | MissingSection nat
  | UnknownDialect "byte list"
  | EntryOffsetPastEnd
  | TrailingOffsetData
  | InvalidAttrTypeIndex string nat
  | TrailingBytesAfterEntry string
  | TrailingCharacters string "byte list"
  | UnexpectedEncoding string
  | ExpectedAttributeKind string
  | ValueIndexRange u32 u32 u64
  | ForwardRefsUnresolved
  | HostAsmParserDiag
  | HostVerifierDiag

section \<open>EncodingReader\<close>

text \<open>
  The reader is the pair \<open>(dataIt, dataEnd)\<close>; only the bytes between the two are ever
  visible, so it is modelled as that list of remaining bytes.
\<close>

type_synonym reader = "byte list"

definition empty_r :: "reader \<Rightarrow> bool" where
  "empty_r r = (r = [])"

definition size_r :: "reader \<Rightarrow> nat" where
  "size_r r = length r"

definition parseByte :: "reader \<Rightarrow> diag + (byte \<times> reader)" where
  "parseByte r = (case r of [] \<Rightarrow> Inl EndOfBytecode | b # r' \<Rightarrow> Inr (b, r'))"

definition parseBytes :: "nat \<Rightarrow> reader \<Rightarrow> diag + (byte list \<times> reader)" where
  "parseBytes n r =
     (if n > size_r r then Inl (ParseBytesShort n (size_r r))
      else Inr (take n r, drop n r))"

definition skipBytes :: "nat \<Rightarrow> reader \<Rightarrow> diag + (unit \<times> reader)" where
  "skipBytes n r =
     (if n > size_r r then Inl (SkipBytesShort n (size_r r)) else Inr ((), drop n r))"

definition parseNullTerminatedString :: "reader \<Rightarrow> diag + (byte list \<times> reader)" where
  "parseNullTerminatedString r =
     (if 0 \<in> set r
      then Inr (takeWhile (\<lambda>b. b \<noteq> 0) r, tl (dropWhile (\<lambda>b. b \<noteq> 0) r))
      else Inl NoNullCharacter)"

text \<open>
  A \<open>uint64_t\<close> seen through \<open>reinterpret_cast<uint8_t *>\<close> on a little-endian host (the
  only hosts the source supports): byte \<open>i\<close> holds bits \<open>8 i .. 8 i + 7\<close>.
\<close>

definition bytesOf :: "u64 \<Rightarrow> byte list" where
  "bytesOf w = map (\<lambda>i. ucast (drop_bit (8 * i) w)) [0..<8]"

fun wordOf :: "byte list \<Rightarrow> u64" where
  "wordOf [] = 0"
| "wordOf (b # bs) = ucast b OR push_bit 8 (wordOf bs)"

text \<open>\<open>memcpy(reinterpret_cast<uint8_t *>(&w) + off, src, length src)\<close>.\<close>

definition memcpyInto :: "u64 \<Rightarrow> nat \<Rightarrow> byte list \<Rightarrow> u64" where
  "memcpyInto w off src =
     wordOf (take off (bytesOf w) @ src @ drop (off + length src) (bytesOf w))"

text \<open>\<open>llvm::countTrailingZeros\<close> on a value with \<open>n\<close> bits still to inspect.\<close>

fun countTrailingZeros :: "nat \<Rightarrow> 'a::len word \<Rightarrow> nat" where
  "countTrailingZeros 0 w = 0"
| "countTrailingZeros (Suc n) w =
     (if bit w 0 then 0 else Suc (countTrailingZeros n (drop_bit 1 w)))"

definition parseMultiByteVarInt :: "u64 \<Rightarrow> reader \<Rightarrow> diag + (u64 \<times> reader)" where
  "parseMultiByteVarInt result r =
     (let numBytes = countTrailingZeros 32 (ucast result :: u32) in
      case parseBytes numBytes r of
        Inl e \<Rightarrow> Inl e
      | Inr (bs, r') \<Rightarrow> Inr (drop_bit (numBytes + 1) (memcpyInto result 1 bs), r'))"

definition parseVarInt :: "reader \<Rightarrow> diag + (u64 \<times> reader)" where
  "parseVarInt r =
     (case parseByte r of
        Inl e \<Rightarrow> Inl e
      | Inr (b, r1) \<Rightarrow>
          (let result = (ucast b :: u64) in
           if result AND 1 \<noteq> 0 then Inr (drop_bit 1 result, r1)
           else if result = 0 then
             (case parseBytes 8 r1 of
                Inl e \<Rightarrow> Inl e
              | Inr (bs, r2) \<Rightarrow> Inr (memcpyInto result 0 bs, r2))
           else parseMultiByteVarInt result r1))"

definition parseVarIntWithFlag :: "reader \<Rightarrow> diag + ((u64 \<times> bool) \<times> reader)" where
  "parseVarIntWithFlag r =
     (case parseVarInt r of
        Inl e \<Rightarrow> Inl e
      | Inr (result, r') \<Rightarrow> Inr ((drop_bit 1 result, result AND 1 \<noteq> 0), r'))"

section \<open>The variable-length integer encoding\<close>

text \<open>
  Modelled from the spec: the bytecode writer that emits variable-length integers is not
  among the sources. Section 4.1 of the specification fixes the format: the value is
  shifted left past a length prefix of \<open>m - 1\<close> zero bits followed by a one bit and written
  as \<open>m\<close> little-endian bytes (\<open>0x2A\<close> is the byte \<open>0x55\<close>, \<open>0x100\<close> the bytes
  \<open>0x02 0x04\<close>); the nine-byte form is a zero byte followed by the eight bytes of the value.
\<close>

definition leBytes :: "nat \<Rightarrow> u64 \<Rightarrow> byte list" where
  "leBytes n w = map (\<lambda>i. ucast (drop_bit (8 * i) w)) [0..<n]"

definition encodeVarIntLen :: "nat \<Rightarrow> u64 \<Rightarrow> byte list" where
  "encodeVarIntLen m x =
     (if m \<ge> 9 then 0 # leBytes 8 x
      else leBytes m (push_bit m x OR push_bit (m - 1) 1))"

text \<open>
  Modelled from the spec: the minimum length category of section 8, one byte below
  \<open>2^7\<close>, two bytes below \<open>2^14\<close>, and so on up to nine bytes from \<open>2^56\<close>.
\<close>

definition minCategory :: "u64 \<Rightarrow> nat" where
  "minCategory x =
     (if x < 2 ^ 7 then 1 else if x < 2 ^ 14 then 2 else if x < 2 ^ 21 then 3
      else if x < 2 ^ 28 then 4 else if x < 2 ^ 35 then 5 else if x < 2 ^ 42 then 6
      else if x < 2 ^ 49 then 7 else if x < 2 ^ 56 then 8 else 9)"

definition encodeVarInt :: "u64 \<Rightarrow> byte list" where
  "encodeVarInt x = encodeVarIntLen (minCategory x) x"

text \<open>The writer's flagged form, \<open>(value << 1) | flag\<close> in 64 bits.\<close>

definition encodeVarIntWithFlag :: "u64 \<Rightarrow> bool \<Rightarrow> byte list" where
  "encodeVarIntWithFlag x flag = encodeVarInt (push_bit 1 x OR (if flag then 1 else 0))"

section \<open>String section\<close>

text \<open>
  A \<open>StringRef\<close> is a pointer into the section and a \<open>size_t\<close> length; the pointer is kept as
  the offset from \<open>sectionData.data()\<close>. Offsets and the running total never exceed the
  section size, so they are natural numbers; the length is computed as \<open>stringSize - 1\<close> in
  64-bit arithmetic, as in the source. The loop runs over \<open>llvm::reverse(strings)\<close>: the first
  size read belongs to the last table entry, so each new entry is put in front of the ones
  already filled in.
\<close>

record StringRef =
  str_offset :: nat
  str_size :: u64

fun parseStringSizes ::
  "nat \<Rightarrow> nat \<Rightarrow> nat \<Rightarrow> StringRef list \<Rightarrow> reader \<Rightarrow> diag + (StringRef list \<times> nat \<times> reader)" where
  "parseStringSizes 0 stringDataEndOffset totalStringDataSize strings r =
     Inr (strings, totalStringDataSize, r)"
| "parseStringSizes (Suc n) stringDataEndOffset totalStringDataSize strings r =
     (case parseVarInt r of
        Inl e \<Rightarrow> Inl e
      | Inr (stringSize, r') \<Rightarrow>
          if stringDataEndOffset < unat stringSize then Inl StringSizeExceeds
          else
            (let stringOffset = stringDataEndOffset - unat stringSize in
             parseStringSizes n stringOffset (totalStringDataSize + unat stringSize)
               (\<lparr>str_offset = stringOffset, str_size = stringSize - 1\<rparr> # strings) r'))"

definition parseStringSection :: "byte list \<Rightarrow> diag + StringRef list" where
  "parseStringSection sectionData =
     (case parseVarInt sectionData of
        Inl e \<Rightarrow> Inl e
      | Inr (numStrings, stringReader) \<Rightarrow>
          (case parseStringSizes (unat numStrings) (length sectionData) 0 [] stringReader of
             Inl e \<Rightarrow> Inl e
           | Inr (strings, totalStringDataSize, stringReader') \<Rightarrow>
               if size_r stringReader' \<noteq> totalStringDataSize then Inl StringTrailingData
               else Inr strings))"

text \<open>
  The size list of a section, read on its own: \<open>n\<close> consecutive variable-length integers.
  \<open>sizesFit\<close> says that no size exceeds the data left before it, \<open>sizeSum\<close> is the total of
  the sizes, and \<open>refsInReadOrder\<close> lists the slices in the order their sizes are read.
\<close>

fun parseVarInts :: "nat \<Rightarrow> reader \<Rightarrow> diag + (u64 list \<times> reader)" where
  "parseVarInts 0 r = Inr ([], r)"
| "parseVarInts (Suc n) r =
     (case parseVarInt r of
        Inl e \<Rightarrow> Inl e
      | Inr (v, r') \<Rightarrow>
          (case parseVarInts n r' of Inl e \<Rightarrow> Inl e | Inr (vs, r'') \<Rightarrow> Inr (v # vs, r'')))"

fun sizesFit :: "nat \<Rightarrow> u64 list \<Rightarrow> bool" where
  "sizesFit endOff [] = True"
| "sizesFit endOff (s # ss) = (unat s \<le> endOff \<and> sizesFit (endOff - unat s) ss)"

definition sizeSum :: "u64 list \<Rightarrow> nat" where
  "sizeSum ss = sum_list (map unat ss)"


fun refsInReadOrder :: "nat \<Rightarrow> u64 list \<Rightarrow> StringRef list" where
  "refsInReadOrder e [] = []"
| "refsInReadOrder e (s # ss) =
     \<lparr>str_offset = e - unat s, str_size = s - 1\<rparr> # refsInReadOrder (e - unat s) ss"



section \<open>Host framework\<close>

datatype Attribute = UnknownLoc | LocationAttr nat | DictionaryAttr nat | OtherAttr nat

datatype MType = NoneType | HostType nat

datatype Value = OpResult nat nat | BlockArgument nat nat

record Operation =
  op_name :: "byte list"
  op_loc :: Attribute
  op_attrs :: "Attribute option"
  op_types :: "MType option list"
  op_operands :: "Value option list"
  op_successors :: "nat option list"
  op_regions :: "nat list"

record Block =
  b_args :: "(MType \<times> Attribute) list"
  b_ops :: "nat list"

record host =
  kVersion :: u64
  getOrLoadDialect :: "byte list \<Rightarrow> nat option"
  allowsUnregisteredDialects :: bool
  asmParseAttribute :: "byte list \<Rightarrow> (Attribute \<times> nat) option"
  asmParseType :: "byte list \<Rightarrow> (MType \<times> nat) option"
  verify :: "Operation list \<Rightarrow> Block list \<Rightarrow> nat list list \<Rightarrow> nat \<Rightarrow> bool"
  fileLoc :: Attribute

section \<open>Reader state\<close>

record BytecodeDialect =
  d_dialect :: "nat option option"
  d_name :: StringRef

record BytecodeOperationName =
  on_opName :: "byte list option"
  on_dialect :: nat
  on_name :: StringRef

record 'a Entry =
  e_entry :: "'a option"
  e_dialect :: "nat option"
  e_hasCustomEncoding :: bool
  e_data :: "byte list"

record RegionReadState =
  regionRange :: "nat list"
  numValues :: u32
  curBlocks :: "nat list"
  curBlock :: "nat option"
  numOpsRemaining :: u64
  isIsolatedFromAbove :: bool

record ValueScope =
  vs_values :: "Value option list"
  nextValueIDs :: "u32 list"

record rstate =
  rd :: reader
  ctxLoads :: "byte list list"
  version :: u64
  producer :: "byte list"
  stringData :: "byte list"
  strings :: "StringRef list"
  dialects :: "BytecodeDialect list"
  opNames :: "BytecodeOperationName list"
  attributes :: "Attribute Entry list"
  types :: "MType Entry list"
  valueScopes :: "ValueScope list"
  forwardRefOps :: "nat list"
  openForwardRefOps :: "nat list"
  ops :: "Operation list"
  blocks :: "Block list"
  regions :: "nat list list"
  target :: "nat list"

datatype 'a res = Ok 'a | Failed diag | Crash

type_synonym 'a M = "rstate \<Rightarrow> 'a res \<times> rstate"

definition ret :: "'a \<Rightarrow> 'a M" where
  "ret x s = (Ok x, s)"

definition bind :: "'a M \<Rightarrow> ('a \<Rightarrow> 'b M) \<Rightarrow> 'b M" where
  "bind m f s =
     (case m s of
        (Ok x, s') \<Rightarrow> f x s'
      | (Failed d, s') \<Rightarrow> (Failed d, s')
      | (Crash, s') \<Rightarrow> (Crash, s'))"

definition gets :: "(rstate \<Rightarrow> 'a) \<Rightarrow> 'a M" where
  "gets f s = (Ok (f s), s)"

definition modify :: "(rstate \<Rightarrow> rstate) \<Rightarrow> unit M" where
  "modify f s = (Ok (), f s)"

definition emitError :: "diag \<Rightarrow> 'a M" where
  "emitError d s = (Failed d, s)"

definition crash :: "'a M" where
  "crash s = (Crash, s)"

definition withReader :: "(reader \<Rightarrow> diag + 'a \<times> reader) \<Rightarrow> 'a M" where
  "withReader p s =
     (case p (rd s) of
        Inl d \<Rightarrow> (Failed d, s)
      | Inr (x, r') \<Rightarrow> (Ok x, s\<lparr>rd := r'\<rparr>))"

lemma bind_cong [fundef_cong]:
  "m = m' \<Longrightarrow> (\<And>x s s'. m' s = (Ok x, s') \<Longrightarrow> f x s' = f' x s') \<Longrightarrow> bind m f = bind m' f'"
  by (auto simp add: bind_def fun_eq_iff split: prod.splits res.splits)

section \<open>Sections\<close>

text \<open>
  Modelled from the spec: \<open>Encoding.h\<close> is not among the sources. Section 6 of the
  specification gives the five section ids and section 4.6.3 the bits of the operation mask.
\<close>

definition kString :: nat where "kString = 0"
definition kDialect :: nat where "kDialect = 1"
definition kAttrType :: nat where "kAttrType = 2"
definition kAttrTypeOffset :: nat where "kAttrTypeOffset = 3"
definition kIR :: nat where "kIR = 4"
definition kNumSections :: nat where "kNumSections = 5"

definition kHasAttrs :: byte where "kHasAttrs = 0x01"
definition kHasResults :: byte where "kHasResults = 0x02"
definition kHasOperands :: byte where "kHasOperands = 0x04"
definition kHasSuccessors :: byte where "kHasSuccessors = 0x08"
definition kHasInlineRegions :: byte where "kHasInlineRegions = 0x10"

definition parseSection :: "reader \<Rightarrow> diag + ((nat \<times> byte list) \<times> reader)" where
  "parseSection r =
     (case parseByte r of
        Inl d \<Rightarrow> Inl d
      | Inr (sectionID, r1) \<Rightarrow>
          (case parseVarInt r1 of
             Inl d \<Rightarrow> Inl d
           | Inr (len, r2) \<Rightarrow>
               if unat sectionID \<ge> kNumSections then Inl (InvalidSectionID (unat sectionID))
               else
                 (case parseBytes (unat len) r2 of
                    Inl d \<Rightarrow> Inl d
                  | Inr (sectionData, r3) \<Rightarrow> Inr ((unat sectionID, sectionData), r3))))"

lemma parseVarInt_shrinks:
  assumes "parseVarInt r = Inr (v, r')"
  shows "length r' < length r"
proof -
  from assms obtain b r1 where r: "r = b # r1"
    by (cases r) (auto simp add: parseVarInt_def parseByte_def)
  have pb: "parseBytes n r1 = Inr (bs, r2) \<Longrightarrow> length r2 \<le> length r1" for n bs r2
    by (auto simp add: parseBytes_def size_r_def split: if_splits)
  from assms r have "length r' \<le> length r1"
    by (auto simp add: parseVarInt_def parseByte_def Let_def parseMultiByteVarInt_def
        split: if_splits sum.splits dest: pb)
  then show ?thesis using r by simp
qed

lemma parseSection_shrinks:
  "parseSection r = Inr (x, r') \<Longrightarrow> length r' < length r"
  by (auto simp add: parseSection_def parseByte_def parseBytes_def size_r_def
      split: list.splits sum.splits if_splits dest!: parseVarInt_shrinks)

function gatherSections :: "byte list option list \<Rightarrow> reader \<Rightarrow> diag + byte list option list" where
  "gatherSections sectionDatas r =
     (if empty_r r then Inr sectionDatas
      else
        (case parseSection r of
           Inl d \<Rightarrow> Inl d
         | Inr ((sectionID, sectionData), r') \<Rightarrow>
             if sectionDatas ! sectionID \<noteq> None then Inl (DuplicateSection sectionID)
             else gatherSections (sectionDatas[sectionID := Some sectionData]) r'))"
  by pat_completeness auto
termination
  by (relation "measure (\<lambda>(sectionDatas, r). length r)") (auto dest: parseSection_shrinks)

section \<open>Reader progress\<close>

definition nogrow :: "'a M \<Rightarrow> bool" where
  "nogrow f = (\<forall>s x s'. f s = (Ok x, s') \<longrightarrow> length (rd s') \<le> length (rd s))"

definition shrinks :: "'a M \<Rightarrow> bool" where
  "shrinks f = (\<forall>s x s'. f s = (Ok x, s') \<longrightarrow> length (rd s') < length (rd s))"

lemma shrinksD: "shrinks f \<Longrightarrow> f s = (Ok x, s') \<Longrightarrow> length (rd s') < length (rd s)"
  by (simp add: shrinks_def)

lemma nogrowD: "nogrow f \<Longrightarrow> f s = (Ok x, s') \<Longrightarrow> length (rd s') \<le> length (rd s)"
  by (simp add: nogrow_def)

lemma shrinks_nogrow: "shrinks f \<Longrightarrow> nogrow f"
  by (fastforce simp add: shrinks_def nogrow_def)

lemma nogrow_ret [intro!, simp]: "nogrow (ret x)"
  by (simp add: nogrow_def ret_def)

lemma nogrow_gets [intro!, simp]: "nogrow (gets f)"
  by (simp add: nogrow_def gets_def)

lemma nogrow_emitError [intro!, simp]: "nogrow (emitError d)"
  by (simp add: nogrow_def emitError_def)

lemma shrinks_emitError [intro!, simp]: "shrinks (emitError d)"
  by (simp add: shrinks_def emitError_def)

lemma nogrow_crash [intro!, simp]: "nogrow crash"
  by (simp add: nogrow_def crash_def)

lemma shrinks_crash [intro!, simp]: "shrinks crash"
  by (simp add: shrinks_def crash_def)

lemma nogrow_modify: "(\<And>s. rd (g s) = rd s) \<Longrightarrow> nogrow (modify g)"
  by (simp add: nogrow_def modify_def)

lemma nogrow_bind [intro!]: "nogrow m \<Longrightarrow> (\<And>x. nogrow (f x)) \<Longrightarrow> nogrow (bind m f)"
  unfolding nogrow_def bind_def
  by (auto split: prod.splits res.splits) (meson le_trans)

lemma shrinks_bind1: "shrinks m \<Longrightarrow> (\<And>x. nogrow (f x)) \<Longrightarrow> shrinks (bind m f)"
  unfolding nogrow_def shrinks_def bind_def
  by (auto split: prod.splits res.splits) (meson le_less_trans)

lemma shrinks_bind2: "nogrow m \<Longrightarrow> (\<And>x. shrinks (f x)) \<Longrightarrow> shrinks (bind m f)"
  unfolding nogrow_def shrinks_def bind_def
  by (auto split: prod.splits res.splits) (meson less_le_trans)

lemma shrinks_withReader:
  "(\<And>r x r'. p r = Inr (x, r') \<Longrightarrow> length r' < length r) \<Longrightarrow> shrinks (withReader p)"
  by (auto simp add: shrinks_def withReader_def split: sum.splits)

lemma shrinks_parseVarInt [intro!, simp]: "shrinks (withReader parseVarInt)"
  by (rule shrinks_withReader) (rule parseVarInt_shrinks)

lemma shrinks_parseVarIntWithFlag [intro!, simp]: "shrinks (withReader parseVarIntWithFlag)"
  by (rule shrinks_withReader)
     (auto simp add: parseVarIntWithFlag_def split: sum.splits dest: parseVarInt_shrinks)

lemma shrinks_parseByte [intro!, simp]: "shrinks (withReader parseByte)"
  by (rule shrinks_withReader) (auto simp add: parseByte_def split: list.splits)

lemma nogrow_parseVarInt [intro!, simp]: "nogrow (withReader parseVarInt)"
  by (rule shrinks_nogrow) simp

lemma nogrow_parseVarIntWithFlag [intro!, simp]: "nogrow (withReader parseVarIntWithFlag)"
  by (rule shrinks_nogrow) simp

lemma nogrow_parseByte [intro!, simp]: "nogrow (withReader parseByte)"
  by (rule shrinks_nogrow) simp

section \<open>Table lookups\<close>

definition resize :: "nat \<Rightarrow> 'a \<Rightarrow> 'a list \<Rightarrow> 'a list" where
  "resize n x xs = take n xs @ replicate (n - length xs) x"

text \<open>
  \<open>parseEntry\<close> and \<open>resolveEntry\<close> of the source return a reference or a pointer into the
  table; the model returns the index, which plays the part of the pointer.
\<close>

definition parseEntry :: "(rstate \<Rightarrow> nat) \<Rightarrow> string \<Rightarrow> nat M" where
  "parseEntry entriesSize entryStr =
     bind (withReader parseVarInt) (\<lambda>entryIdx.
     bind (gets entriesSize) (\<lambda>n.
       if unat entryIdx \<ge> n then emitError (InvalidIndex entryStr entryIdx)
       else ret (unat entryIdx)))"

text \<open>The bytes a \<open>StringRef\<close> denotes; reading past the string section is undefined.\<close>

definition strBytes :: "byte list \<Rightarrow> StringRef \<Rightarrow> byte list option" where
  "strBytes data ref =
     (if str_offset ref + unat (str_size ref) \<le> length data
      then Some (take (unat (str_size ref)) (drop (str_offset ref) data))
      else None)"

definition parseStringSectionInto :: "byte list \<Rightarrow> unit M" where
  "parseStringSectionInto sectionData s =
     (case parseStringSection sectionData of
        Inl d \<Rightarrow> (Failed d, s)
      | Inr strs \<Rightarrow> (Ok (), s\<lparr>strings := strs, stringData := sectionData\<rparr>))"

definition parseSharedString :: "StringRef M" where
  "parseSharedString =
     bind (parseEntry (\<lambda>s. length (strings s)) ''string'') (\<lambda>i. gets (\<lambda>s. strings s ! i))"

section \<open>Dialect section\<close>

definition load :: "host \<Rightarrow> BytecodeDialect \<Rightarrow> BytecodeDialect M" where
  "load h this =
     (if d_dialect this \<noteq> None then ret this
      else
        bind (gets (\<lambda>s. strBytes (stringData s) (d_name this))) (\<lambda>nameBytes.
          case nameBytes of
            None \<Rightarrow> crash
          | Some name \<Rightarrow>
              bind (modify (\<lambda>s. s\<lparr>ctxLoads := ctxLoads s @ [name]\<rparr>)) (\<lambda>_.
                let loadedDialect = getOrLoadDialect h name in
                if loadedDialect = None \<and> \<not> allowsUnregisteredDialects h
                then emitError (UnknownDialect name)
                else ret (this\<lparr>d_dialect := Some loadedDialect\<rparr>))))"

fun repeatM :: "nat \<Rightarrow> ('a \<Rightarrow> 'a M) \<Rightarrow> 'a \<Rightarrow> 'a M" where
  "repeatM 0 f acc = ret acc"
| "repeatM (Suc n) f acc = bind (f acc) (repeatM n f)"

definition parseDialectGrouping :: "(nat \<Rightarrow> 'a \<Rightarrow> 'a M) \<Rightarrow> 'a \<Rightarrow> 'a M" where
  "parseDialectGrouping entryCallback acc =
     bind (parseEntry (\<lambda>s. length (dialects s)) ''dialect'') (\<lambda>dialect.
     bind (withReader parseVarInt) (\<lambda>numEntries.
       repeatM (unat numEntries) (entryCallback dialect) acc))"

lemma nogrow_repeatM: "(\<And>a. nogrow (f a)) \<Longrightarrow> nogrow (repeatM n f acc)"
  by (induction n arbitrary: acc) auto

lemma shrinks_parseEntry [intro!, simp]: "shrinks (parseEntry n str)"
  unfolding parseEntry_def
  by (intro shrinks_bind1 nogrow_bind) auto

lemma nogrow_parseEntry [intro!, simp]: "nogrow (parseEntry n str)"
  by (rule shrinks_nogrow) simp

lemma shrinks_parseDialectGrouping:
  "(\<And>d a. nogrow (cb d a)) \<Longrightarrow> shrinks (parseDialectGrouping cb acc)"
  unfolding parseDialectGrouping_def
  by (rule shrinks_bind1) (auto intro: nogrow_repeatM)

fun parseDialectNames :: "nat \<Rightarrow> nat \<Rightarrow> unit M" where
  "parseDialectNames i 0 = ret ()"
| "parseDialectNames i (Suc n) =
     bind parseSharedString (\<lambda>name.
     bind (modify (\<lambda>s. s\<lparr>dialects := (dialects s)[i := (dialects s ! i)\<lparr>d_name := name\<rparr>]\<rparr>)) (\<lambda>_.
       parseDialectNames (Suc i) n))"

definition parseOpNameEntry :: "nat \<Rightarrow> unit \<Rightarrow> unit M" where
  "parseOpNameEntry dialect u =
     bind parseSharedString (\<lambda>opName.
       modify (\<lambda>s. s\<lparr>opNames := opNames s @
         [\<lparr>on_opName = None, on_dialect = dialect, on_name = opName\<rparr>]\<rparr>))"

lemma nogrow_parseSharedString [intro!, simp]: "nogrow parseSharedString"
  unfolding parseSharedString_def by auto

lemma nogrow_parseOpNameEntry: "nogrow (parseOpNameEntry d u)"
  unfolding parseOpNameEntry_def
  by (auto intro: nogrow_modify)

function parseOpNameGroups :: "unit M" where
  "parseOpNameGroups s =
     (if empty_r (rd s) then (Ok (), s)
      else
        (case parseDialectGrouping parseOpNameEntry () s of
           (Ok u, s') \<Rightarrow> parseOpNameGroups s'
         | (Failed d, s') \<Rightarrow> (Failed d, s')
         | (Crash, s') \<Rightarrow> (Crash, s')))"
  by pat_completeness auto
termination
proof (relation "measure (\<lambda>s. length (rd s))")
  show "wf (measure (\<lambda>s. length (rd s)))" by simp
next
  fix s x1 x2 x3
  assume "(x1, x2) = parseDialectGrouping parseOpNameEntry () s" "x1 = Ok x3"
  then have "parseDialectGrouping parseOpNameEntry () s = (Ok x3, x2)" by simp
  moreover have "shrinks (parseDialectGrouping parseOpNameEntry ())"
    by (rule shrinks_parseDialectGrouping) (rule nogrow_parseOpNameEntry)
  ultimately show "(x2, s) \<in> measure (\<lambda>s. length (rd s))"
    by (simp add: shrinks_def)
qed

definition parseDialectSection :: "byte list \<Rightarrow> unit M" where
  "parseDialectSection sectionData =
     bind (modify (\<lambda>s. s\<lparr>rd := sectionData\<rparr>)) (\<lambda>_.
     bind (withReader parseVarInt) (\<lambda>numDialects.
     bind (modify (\<lambda>s. s\<lparr>dialects := resize (unat numDialects)
             \<lparr>d_dialect = None, d_name = \<lparr>str_offset = 0, str_size = 0\<rparr>\<rparr> (dialects s)\<rparr>)) (\<lambda>_.
     bind (parseDialectNames 0 (unat numDialects)) (\<lambda>_.
       parseOpNameGroups))))"

definition parseOpName :: "host \<Rightarrow> byte list M" where
  "parseOpName h =
     bind (parseEntry (\<lambda>s. length (opNames s)) ''operation name'') (\<lambda>idx.
     bind (gets (\<lambda>s. opNames s ! idx)) (\<lambda>opName.
       case on_opName opName of
         Some fullName \<Rightarrow> ret fullName
       | None \<Rightarrow>
           bind (gets (\<lambda>s. if on_dialect opName < length (dialects s)
                           then Some (dialects s ! on_dialect opName) else None)) (\<lambda>dialect.
             case dialect of
               None \<Rightarrow> crash
             | Some d \<Rightarrow>
                 bind (load h d) (\<lambda>d'.
                 bind (modify (\<lambda>s. s\<lparr>dialects := (dialects s)[on_dialect opName := d']\<rparr>)) (\<lambda>_.
                 bind (gets (\<lambda>s. (strBytes (stringData s) (d_name d'),
                                   strBytes (stringData s) (on_name opName)))) (\<lambda>names.
                   case names of
                     (Some dialectName, Some localName) \<Rightarrow>
                       bind (modify (\<lambda>s. s\<lparr>opNames := (opNames s)
                               [idx := opName\<lparr>on_opName := Some (dialectName @ [0x2E] @ localName)\<rparr>]\<rparr>))
                         (\<lambda>_. ret (dialectName @ [0x2E] @ localName))
                   | _ \<Rightarrow> crash))))))"

section \<open>Attribute and type tables\<close>

definition parseEntryFn ::
  "byte list \<Rightarrow> nat \<Rightarrow> 'a Entry list \<times> nat \<times> u64 \<Rightarrow> ('a Entry list \<times> nat \<times> u64) M" where
  "parseEntryFn sectionData dialect acc =
     (case acc of (entries, currentIndex, currentOffset) \<Rightarrow>
        if currentIndex \<ge> length entries then crash
        else
          bind (withReader parseVarIntWithFlag) (\<lambda>sizeAndFlag.
            case sizeAndFlag of (entrySize, hasCustomEncoding) \<Rightarrow>
              if unat (currentOffset + entrySize) > length sectionData
              then emitError EntryOffsetPastEnd
              else ret (entries[currentIndex := (entries ! currentIndex)
                           \<lparr>e_hasCustomEncoding := hasCustomEncoding,
                            e_data := take (unat entrySize) (drop (unat currentOffset) sectionData),
                            e_dialect := Some dialect\<rparr>],
                        currentIndex + 1, currentOffset + entrySize)))"

lemma nogrow_parseEntryFn: "nogrow (parseEntryFn sectionData d acc)"
  unfolding parseEntryFn_def
  by (auto split: prod.splits)

function parseEntries ::
  "byte list \<Rightarrow> 'a Entry list \<times> nat \<times> u64 \<Rightarrow> ('a Entry list \<times> nat \<times> u64) M" where
  "parseEntries sectionData acc s =
     (if fst (snd acc) = length (fst acc) then (Ok acc, s)
      else
        (case parseDialectGrouping (parseEntryFn sectionData) acc s of
           (Ok acc', s') \<Rightarrow> parseEntries sectionData acc' s'
         | (Failed d, s') \<Rightarrow> (Failed d, s')
         | (Crash, s') \<Rightarrow> (Crash, s')))"
  by pat_completeness auto
termination
proof (relation "measure (\<lambda>(sectionData, acc, s). length (rd s))")
  show "wf (measure (\<lambda>(sectionData, acc, s). length (rd s)))" by simp
next
  fix sectionData :: "byte list" and acc :: "'a Entry list \<times> nat \<times> u64" and s x1 x2 x3
  assume "(x1, x2) = parseDialectGrouping (parseEntryFn sectionData) acc s" "x1 = Ok x3"
  then have "parseDialectGrouping (parseEntryFn sectionData) acc s = (Ok x3, x2)" by simp
  moreover have "shrinks (parseDialectGrouping (parseEntryFn sectionData) acc)"
    by (rule shrinks_parseDialectGrouping) (rule nogrow_parseEntryFn)
  ultimately have "length (rd x2) < length (rd s)"
    by (rule shrinksD[rotated])
  then show "((sectionData, x3, x2), (sectionData, acc, s))
      \<in> measure (\<lambda>(sectionData, acc, s). length (rd s))"
    by simp
qed

definition emptyEntry :: "'a Entry" where
  "emptyEntry = \<lparr>e_entry = None, e_dialect = None, e_hasCustomEncoding = False, e_data = []\<rparr>"

definition initialize :: "byte list \<Rightarrow> byte list \<Rightarrow> unit M" where
  "initialize sectionData offsetSectionData =
     bind (modify (\<lambda>s. s\<lparr>rd := offsetSectionData\<rparr>)) (\<lambda>_.
     bind (withReader parseVarInt) (\<lambda>numAttributes.
     bind (withReader parseVarInt) (\<lambda>numTypes.
     bind (modify (\<lambda>s. s\<lparr>attributes := resize (unat numAttributes) emptyEntry (attributes s),
                          types := resize (unat numTypes) emptyEntry (types s)\<rparr>)) (\<lambda>_.
     bind (gets attributes) (\<lambda>attrs.
     bind (parseEntries sectionData (attrs, 0, 0)) (\<lambda>attrsDone.
     bind (modify (\<lambda>s. s\<lparr>attributes := fst attrsDone\<rparr>)) (\<lambda>_.
     bind (gets types) (\<lambda>tys.
     bind (parseEntries sectionData (tys, 0, snd (snd attrsDone))) (\<lambda>typesDone.
     bind (modify (\<lambda>s. s\<lparr>types := fst typesDone\<rparr>)) (\<lambda>_.
     bind (gets rd) (\<lambda>offsetReader.
       if \<not> empty_r offsetReader then emitError TrailingOffsetData else ret ())))))))))))"

text \<open>
  \<open>AttrTypeReader::parseEntry\<close>: the textual fallback hands the string to the assembly
  parser of the host, which reports its own diagnostic when it returns null.
\<close>

definition parseAttrEntry :: "host \<Rightarrow> bool \<Rightarrow> reader \<Rightarrow> diag + (Attribute \<times> reader)" where
  "parseAttrEntry h hasCustomEncoding r =
     (if \<not> hasCustomEncoding then
        (case parseNullTerminatedString r of
           Inl d \<Rightarrow> Inl d
         | Inr (attrStr, r') \<Rightarrow>
             (case asmParseAttribute h attrStr of
                None \<Rightarrow> Inl HostAsmParserDiag
              | Some (result, numRead) \<Rightarrow>
                  if numRead \<noteq> length attrStr
                  then Inl (TrailingCharacters ''Attribute'' (drop numRead attrStr))
                  else Inr (result, r')))
      else Inl (UnexpectedEncoding ''Attribute''))"

definition parseTypeEntry :: "host \<Rightarrow> bool \<Rightarrow> reader \<Rightarrow> diag + (MType \<times> reader)" where
  "parseTypeEntry h hasCustomEncoding r =
     (if \<not> hasCustomEncoding then
        (case parseNullTerminatedString r of
           Inl d \<Rightarrow> Inl d
         | Inr (typeStr, r') \<Rightarrow>
             (case asmParseType h typeStr of
                None \<Rightarrow> Inl HostAsmParserDiag
              | Some (result, numRead) \<Rightarrow>
                  if numRead \<noteq> length typeStr
                  then Inl (TrailingCharacters ''Type'' (drop numRead typeStr))
                  else Inr (result, r')))
      else Inl (UnexpectedEncoding ''Type''))"

text \<open>
  \<open>AttrTypeReader::resolveEntry\<close>. A failure ends the whole read and the table is never
  looked at again, so the entry is stored on the successful path only.
\<close>

definition resolveEntry ::
  "(rstate \<Rightarrow> 'a Entry list) \<Rightarrow> ('a Entry list \<Rightarrow> rstate \<Rightarrow> rstate)
   \<Rightarrow> (bool \<Rightarrow> reader \<Rightarrow> diag + ('a \<times> reader)) \<Rightarrow> string \<Rightarrow> nat \<Rightarrow> 'a M" where
  "resolveEntry getEntries setEntries parseEntryT entryType index =
     bind (gets getEntries) (\<lambda>entries.
       if index \<ge> length entries then emitError (InvalidAttrTypeIndex entryType index)
       else
         (case e_entry (entries ! index) of
            Some resolved \<Rightarrow> ret resolved
          | None \<Rightarrow>
              (case parseEntryT (e_hasCustomEncoding (entries ! index)) (e_data (entries ! index)) of
                 Inl d \<Rightarrow> emitError d
               | Inr (result, r) \<Rightarrow>
                   if \<not> empty_r r then emitError (TrailingBytesAfterEntry entryType)
                   else
                     bind (modify (setEntries
                             (entries[index := (entries ! index)\<lparr>e_entry := Some result\<rparr>])))
                       (\<lambda>_. ret result))))"

definition resolveAttribute :: "host \<Rightarrow> nat \<Rightarrow> Attribute M" where
  "resolveAttribute h index =
     resolveEntry attributes (\<lambda>es s. s\<lparr>attributes := es\<rparr>) (parseAttrEntry h) ''Attribute'' index"

definition resolveType :: "host \<Rightarrow> nat \<Rightarrow> MType M" where
  "resolveType h index =
     resolveEntry types (\<lambda>es s. s\<lparr>types := es\<rparr>) (parseTypeEntry h) ''Type'' index"

definition parseAttribute :: "host \<Rightarrow> Attribute M" where
  "parseAttribute h = bind (withReader parseVarInt) (\<lambda>attrIdx. resolveAttribute h (unat attrIdx))"

definition parseType :: "host \<Rightarrow> MType M" where
  "parseType h = bind (withReader parseVarInt) (\<lambda>typeIdx. resolveType h (unat typeIdx))"

text \<open>\<open>parseAttribute<LocationAttr>\<close> and \<open>parseAttribute<DictionaryAttr>\<close>.\<close>

definition isLocationAttr :: "Attribute \<Rightarrow> bool" where
  "isLocationAttr a = (case a of UnknownLoc \<Rightarrow> True | LocationAttr n \<Rightarrow> True | _ \<Rightarrow> False)"

definition isDictionaryAttr :: "Attribute \<Rightarrow> bool" where
  "isDictionaryAttr a = (case a of DictionaryAttr n \<Rightarrow> True | _ \<Rightarrow> False)"

definition parseLocationAttr :: "host \<Rightarrow> Attribute M" where
  "parseLocationAttr h =
     bind (parseAttribute h) (\<lambda>attr.
       if isLocationAttr attr then ret attr else emitError (ExpectedAttributeKind ''LocationAttr''))"

definition parseDictionaryAttr :: "host \<Rightarrow> Attribute M" where
  "parseDictionaryAttr h =
     bind (parseAttribute h) (\<lambda>attr.
       if isDictionaryAttr attr then ret attr
       else emitError (ExpectedAttributeKind ''DictionaryAttr''))"

section \<open>Host IR\<close>

text \<open>
  Modelled from the spec: the IR data model (operations, blocks, regions, values) belongs to
  the host framework and is not among the sources. Operations, blocks and regions live in
  three stores and are named by their index; creating one appends it to its store. A block
  is the list of its operations, a region the list of its blocks. Section 4.7 of the
  specification describes the two operations the reader relies on: replacing all uses of a
  value by another, and moving a placeholder between the two pools.
\<close>

definition createOperation :: "Operation \<Rightarrow> nat M" where
  "createOperation state =
     bind (gets (\<lambda>s. length (ops s))) (\<lambda>op.
     bind (modify (\<lambda>s. s\<lparr>ops := ops s @ [state]\<rparr>)) (\<lambda>_. ret op))"

definition createRegions :: "nat \<Rightarrow> nat list M" where
  "createRegions n =
     bind (gets (\<lambda>s. length (regions s))) (\<lambda>first.
     bind (modify (\<lambda>s. s\<lparr>regions := regions s @ replicate n []\<rparr>)) (\<lambda>_.
       ret [first..<first + n]))"

definition createBlock :: "nat M" where
  "createBlock =
     bind (gets (\<lambda>s. length (blocks s))) (\<lambda>b.
     bind (modify (\<lambda>s. s\<lparr>blocks := blocks s @ [\<lparr>b_args = [], b_ops = []\<rparr>]\<rparr>)) (\<lambda>_. ret b))"

definition push_back_op :: "nat \<Rightarrow> nat \<Rightarrow> unit M" where
  "push_back_op block op =
     modify (\<lambda>s. s\<lparr>blocks := (blocks s)[block := (blocks s ! block)
                      \<lparr>b_ops := b_ops (blocks s ! block) @ [op]\<rparr>]\<rparr>)"

definition replaceAllUsesWith :: "Value \<Rightarrow> Value \<Rightarrow> unit M" where
  "replaceAllUsesWith oldValue newValue =
     modify (\<lambda>s. s\<lparr>ops := map (\<lambda>op. op\<lparr>op_operands :=
                      map (\<lambda>v. if v = Some oldValue then Some newValue else v) (op_operands op)\<rparr>)
                    (ops s)\<rparr>)"

definition string_bytes :: "string \<Rightarrow> byte list" where
  "string_bytes str = map (\<lambda>c. of_nat (of_char c)) str"

definition forwardRefOpState :: Operation where
  "forwardRefOpState =
     \<lparr>op_name = string_bytes ''builtin.unrealized_conversion_cast'', op_loc = UnknownLoc,
      op_attrs = None, op_types = [Some NoneType], op_operands = [], op_successors = [],
      op_regions = []\<rparr>"

section \<open>Value processing\<close>

text \<open>
  \<open>valueScopes\<close> and the region stack are vectors used as stacks; their lists have the
  back of the vector first. \<open>values\<close> is indexed, so its list is in index order.
\<close>

definition createForwardRef :: "Value M" where
  "createForwardRef =
     bind (gets openForwardRefOps) (\<lambda>openOps.
     bind (if openOps \<noteq> []
           then modify (\<lambda>s. s\<lparr>openForwardRefOps := butlast openOps,
                                forwardRefOps := forwardRefOps s @ [last openOps]\<rparr>)
           else bind (createOperation forwardRefOpState) (\<lambda>op.
                  modify (\<lambda>s. s\<lparr>forwardRefOps := forwardRefOps s @ [op]\<rparr>))) (\<lambda>_.
       gets (\<lambda>s. OpResult (last (forwardRefOps s)) 0)))"

definition updateTopScope :: "(ValueScope \<Rightarrow> ValueScope) \<Rightarrow> unit M" where
  "updateTopScope f =
     modify (\<lambda>s. s\<lparr>valueScopes := f (hd (valueScopes s)) # tl (valueScopes s)\<rparr>)"

definition parseOperand :: "Value M" where
  "parseOperand =
     bind (gets valueScopes) (\<lambda>scopes.
       case scopes of
         [] \<Rightarrow> crash
       | valueScope # outer \<Rightarrow>
           bind (parseEntry (\<lambda>s. length (vs_values valueScope)) ''value'') (\<lambda>idx.
             case vs_values valueScope ! idx of
               Some v \<Rightarrow> ret v
             | None \<Rightarrow>
                 bind createForwardRef (\<lambda>v.
                 bind (updateTopScope (\<lambda>sc. sc\<lparr>vs_values := (vs_values sc)[idx := Some v]\<rparr>)) (\<lambda>_.
                   ret v))))"

text \<open>
  One iteration of the loop of \<open>defineValues\<close>. \<open>valueID\<close> is a reference to the back of
  \<open>nextValueIDs\<close>. The assertion of the source is kept: an old value that is not the result
  of an operation in \<open>forwardRefOps\<close> is outside the defined behaviour.
\<close>

definition defineValue :: "Value \<Rightarrow> unit M" where
  "defineValue newValue =
     bind (gets valueScopes) (\<lambda>scopes.
       case scopes of
         [] \<Rightarrow> crash
       | valueScope # outer \<Rightarrow>
           (case nextValueIDs valueScope of
              [] \<Rightarrow> crash
            | valueID # ids \<Rightarrow>
                if unat valueID \<ge> length (vs_values valueScope) then crash
                else
                  bind (updateTopScope (\<lambda>sc. sc\<lparr>vs_values := (vs_values sc)[unat valueID := Some newValue]\<rparr>)) (\<lambda>_.
                  bind (case vs_values valueScope ! unat valueID of
                          None \<Rightarrow> ret ()
                        | Some oldValue \<Rightarrow>
                            (case oldValue of
                               BlockArgument b i \<Rightarrow> crash
                             | OpResult forwardRefOp i \<Rightarrow>
                                 bind (gets forwardRefOps) (\<lambda>active.
                                   if forwardRefOp \<notin> set active then crash
                                   else
                                     bind (replaceAllUsesWith oldValue newValue) (\<lambda>_.
                                       modify (\<lambda>s. s\<lparr>forwardRefOps := removeAll forwardRefOp (forwardRefOps s),
                                                      openForwardRefOps := openForwardRefOps s @ [forwardRefOp]\<rparr>))))) (\<lambda>_.
                    updateTopScope (\<lambda>sc. sc\<lparr>nextValueIDs := (valueID + 1) # ids\<rparr>)))))"

fun defineValuesLoop :: "Value list \<Rightarrow> unit M" where
  "defineValuesLoop [] = ret ()"
| "defineValuesLoop (newValue # newValues) =
     bind (defineValue newValue) (\<lambda>_. defineValuesLoop newValues)"

definition defineValues :: "Value list \<Rightarrow> unit M" where
  "defineValues newValues =
     bind (gets valueScopes) (\<lambda>scopes.
       case scopes of
         [] \<Rightarrow> crash
       | valueScope # outer \<Rightarrow>
           (case nextValueIDs valueScope of
              [] \<Rightarrow> crash
            | valueID # ids \<Rightarrow>
                (let valueIDEnd = valueID + of_nat (length newValues) in
                 if unat valueIDEnd > length (vs_values valueScope)
                 then emitError (ValueIndexRange valueID valueIDEnd
                                   (of_nat (length (vs_values valueScope)) - 1))
                 else defineValuesLoop
                        (take (unat (of_nat (length newValues) :: u32)) newValues))))"

definition scopePush :: "RegionReadState \<Rightarrow> ValueScope \<Rightarrow> ValueScope" where
  "scopePush readState sc =
     sc\<lparr>nextValueIDs := of_nat (length (vs_values sc)) # nextValueIDs sc,
        vs_values := vs_values sc @ replicate (unat (numValues readState)) None\<rparr>"

definition pushTopScope :: "RegionReadState \<Rightarrow> unit M" where
  "pushTopScope readState =
     bind (gets valueScopes) (\<lambda>scopes.
       if scopes = [] then crash else updateTopScope (scopePush readState))"

text \<open>
  \<open>ValueScope::pop\<close>. Shrinking \<open>values\<close> by more than its size, or popping an empty
  \<open>nextValueIDs\<close>, is outside the defined behaviour.
\<close>

definition popTopScope :: "RegionReadState \<Rightarrow> unit M" where
  "popTopScope readState =
     bind (gets valueScopes) (\<lambda>scopes.
       case scopes of
         [] \<Rightarrow> crash
       | sc # outer \<Rightarrow>
           if unat (numValues readState) > length (vs_values sc) \<or> nextValueIDs sc = [] then crash
           else updateTopScope (\<lambda>sc. sc\<lparr>vs_values := take (length (vs_values sc) - unat (numValues readState))
                                                  (vs_values sc),
                                       nextValueIDs := tl (nextValueIDs sc)\<rparr>))"

section \<open>IR section\<close>

text \<open>
  The loops \<open>for (int i = 0, e = n; i < e; ++i)\<close> of \<open>parseOpWithoutRegions\<close> convert the
  64-bit count to \<open>int\<close>: they run for the low 32 bits of the count read as a signed number,
  and not at all when that is negative. The vector was resized to the full count before, so
  the entries the loop does not reach stay null.
\<close>

definition intLoopCount :: "u64 \<Rightarrow> nat" where
  "intLoopCount n = (let e = sint (ucast n :: u32) in if 0 < e then nat e else 0)"

definition resized :: "nat \<Rightarrow> 'a list \<Rightarrow> 'a option list" where
  "resized n xs = map Some xs @ replicate (n - length xs) None"

fun collectM :: "nat \<Rightarrow> 'a M \<Rightarrow> 'a list M" where
  "collectM 0 f = ret []"
| "collectM (Suc n) f = bind f (\<lambda>x. bind (collectM n f) (\<lambda>xs. ret (x # xs)))"

text \<open>\<open>&*readState.curBlock\<close>: the block the iterator stands on.\<close>

definition curBlockId :: "RegionReadState \<Rightarrow> nat M" where
  "curBlockId readState =
     bind (gets regions) (\<lambda>rgs.
       case (regionRange readState, curBlock readState) of
         (r # later, Some i) \<Rightarrow>
           if r < length rgs \<and> i < length (rgs ! r) then ret (rgs ! r ! i) else crash
       | _ \<Rightarrow> crash)"

definition parseOpWithoutRegions :: "host \<Rightarrow> RegionReadState \<Rightarrow> (nat \<times> bool) M" where
  "parseOpWithoutRegions h readState =
     bind (parseOpName h) (\<lambda>opName.
     bind (withReader parseByte) (\<lambda>opMask.
     bind (parseLocationAttr h) (\<lambda>opLoc.
     bind (if opMask AND kHasAttrs \<noteq> 0
           then bind (parseDictionaryAttr h) (\<lambda>dictAttr. ret (Some dictAttr))
           else ret None) (\<lambda>attrs.
     bind (if opMask AND kHasResults \<noteq> 0
           then bind (withReader parseVarInt) (\<lambda>numResults.
                bind (collectM (intLoopCount numResults) (parseType h)) (\<lambda>tys.
                  ret (resized (unat numResults) tys)))
           else ret []) (\<lambda>resultTypes.
     bind (if opMask AND kHasOperands \<noteq> 0
           then bind (withReader parseVarInt) (\<lambda>numOperands.
                bind (collectM (intLoopCount numOperands) parseOperand) (\<lambda>vs.
                  ret (resized (unat numOperands) vs)))
           else ret []) (\<lambda>operands.
     bind (if opMask AND kHasSuccessors \<noteq> 0
           then bind (withReader parseVarInt) (\<lambda>numSuccs.
                bind (collectM (intLoopCount numSuccs)
                        (parseEntry (\<lambda>s. length (curBlocks readState)) ''successor'')) (\<lambda>is.
                  ret (resized (unat numSuccs) (map (\<lambda>i. curBlocks readState ! i) is))))
           else ret []) (\<lambda>successors.
     bind (if opMask AND kHasInlineRegions \<noteq> 0
           then bind (withReader parseVarIntWithFlag) (\<lambda>numAndFlag.
                  ret (intLoopCount (fst numAndFlag), snd numAndFlag))
           else ret (0, False)) (\<lambda>regionsAndFlag.
     bind (createRegions (fst regionsAndFlag)) (\<lambda>opRegions.
     bind (createOperation
             \<lparr>op_name = opName, op_loc = opLoc, op_attrs = attrs, op_types = resultTypes,
              op_operands = operands, op_successors = successors, op_regions = opRegions\<rparr>) (\<lambda>op.
     bind (curBlockId readState) (\<lambda>block.
     bind (push_back_op block op) (\<lambda>_.
     bind (if resultTypes \<noteq> []
           then defineValues (map (OpResult op) [0..<length resultTypes])
           else ret ()) (\<lambda>_.
       ret (op, snd regionsAndFlag))))))))))))))"

definition parseBlockArguments :: "host \<Rightarrow> nat \<Rightarrow> unit M" where
  "parseBlockArguments h block =
     bind (withReader parseVarInt) (\<lambda>numArgs.
     bind (collectM (unat numArgs)
             (bind (parseType h) (\<lambda>argType.
              bind (parseLocationAttr h) (\<lambda>argLoc. ret (argType, argLoc))))) (\<lambda>args.
     bind (modify (\<lambda>s. s\<lparr>blocks := (blocks s)[block := (blocks s ! block)
                            \<lparr>b_args := b_args (blocks s ! block) @ args\<rparr>]\<rparr>)) (\<lambda>_.
     bind (gets (\<lambda>s. length (b_args (blocks s ! block)))) (\<lambda>n.
       defineValues (map (BlockArgument block) [0..<n])))))"

definition parseBlock :: "host \<Rightarrow> RegionReadState \<Rightarrow> RegionReadState M" where
  "parseBlock h readState =
     bind (withReader parseVarIntWithFlag) (\<lambda>numAndFlag.
       if snd numAndFlag
       then bind (curBlockId readState) (\<lambda>block.
            bind (parseBlockArguments h block) (\<lambda>_.
              ret (readState\<lparr>numOpsRemaining := fst numAndFlag\<rparr>)))
       else ret (readState\<lparr>numOpsRemaining := fst numAndFlag\<rparr>))"

fun createBlocks :: "nat \<Rightarrow> nat \<Rightarrow> nat list M" where
  "createBlocks region 0 = ret []"
| "createBlocks region (Suc n) =
     bind createBlock (\<lambda>b.
     bind (modify (\<lambda>s. s\<lparr>regions := (regions s)[region := regions s ! region @ [b]]\<rparr>)) (\<lambda>_.
     bind (createBlocks region n) (\<lambda>bs. ret (b # bs))))"

definition parseRegion :: "host \<Rightarrow> RegionReadState \<Rightarrow> RegionReadState M" where
  "parseRegion h readState =
     bind (withReader parseVarInt) (\<lambda>numBlocks.
       if numBlocks = 0 then ret readState
       else
         bind (withReader parseVarInt) (\<lambda>numValues.
         bind (createBlocks (hd (regionRange readState)) (unat numBlocks)) (\<lambda>newBlocks.
         bind (pushTopScope (readState\<lparr>numValues := ucast numValues\<rparr>)) (\<lambda>_.
           parseBlock h (readState\<lparr>numValues := ucast numValues, curBlocks := newBlocks,
                                    curBlock := Some 0\<rparr>)))))"

lemma nogrow_collectM: "nogrow f \<Longrightarrow> nogrow (collectM n f)"
  by (induction n) auto

lemmas nogrow_splits = option.splits list.splits prod.splits Value.splits sum.splits

lemma nogrow_host_ir [intro!, simp]:
  "nogrow (createOperation st)" "nogrow (createRegions n)" "nogrow createBlock"
  "nogrow (push_back_op b op)" "nogrow (replaceAllUsesWith ov nv)" "nogrow (updateTopScope f)"
  unfolding createOperation_def createRegions_def createBlock_def push_back_op_def
    replaceAllUsesWith_def updateTopScope_def
  by (auto intro!: nogrow_modify)

lemma nogrow_createForwardRef [intro!, simp]: "nogrow createForwardRef"
  unfolding createForwardRef_def by (auto intro!: nogrow_modify)

lemma nogrow_parseOperand [intro!, simp]: "nogrow parseOperand"
  unfolding parseOperand_def by (auto intro!: nogrow_modify split: nogrow_splits)

lemma nogrow_defineValue [intro!, simp]: "nogrow (defineValue v)"
  unfolding defineValue_def by (auto intro!: nogrow_modify split: nogrow_splits)

lemma nogrow_defineValuesLoop [intro!, simp]: "nogrow (defineValuesLoop vs)"
  by (induction vs) auto

lemma nogrow_defineValues [intro!, simp]: "nogrow (defineValues vs)"
  unfolding defineValues_def by (auto simp add: Let_def split: nogrow_splits)

lemma nogrow_scopes [intro!, simp]: "nogrow (pushTopScope rs)" "nogrow (popTopScope rs)"
  unfolding pushTopScope_def popTopScope_def by (auto split: nogrow_splits)

lemma nogrow_load [intro!, simp]: "nogrow (load h d)"
  unfolding load_def by (auto intro!: nogrow_modify simp add: Let_def split: nogrow_splits)

lemma shrinks_parseOpName [intro!, simp]: "shrinks (parseOpName h)"
  unfolding parseOpName_def
  by (rule shrinks_bind1) (auto intro!: nogrow_modify split: nogrow_splits)

lemma nogrow_resolveEntry [intro!, simp]:
  "(\<And>es s. rd (setE es s) = rd s) \<Longrightarrow> nogrow (resolveEntry getE setE p str i)"
  unfolding resolveEntry_def by (auto intro!: nogrow_modify split: nogrow_splits)

lemma shrinks_parseAttribute [intro!, simp]: "shrinks (parseAttribute h)" "shrinks (parseType h)"
  unfolding parseAttribute_def parseType_def resolveAttribute_def resolveType_def
  by (rule shrinks_bind1; auto)+

lemma shrinks_parseLocationAttr [intro!, simp]:
  "shrinks (parseLocationAttr h)" "shrinks (parseDictionaryAttr h)"
  unfolding parseLocationAttr_def parseDictionaryAttr_def
  by (rule shrinks_bind1; auto)+

lemma nogrow_parseAttrs [intro!, simp]:
  "nogrow (parseAttribute h)" "nogrow (parseType h)"
  "nogrow (parseLocationAttr h)" "nogrow (parseDictionaryAttr h)" "nogrow (parseOpName h)"
  by (rule shrinks_nogrow; simp)+

lemma nogrow_curBlockId [intro!, simp]: "nogrow (curBlockId rs)"
  unfolding curBlockId_def by (auto split: nogrow_splits)

lemma shrinks_parseOpWithoutRegions [intro!, simp]: "shrinks (parseOpWithoutRegions h rs)"
  unfolding parseOpWithoutRegions_def
  by (rule shrinks_bind1) (auto intro!: nogrow_collectM)

lemma nogrow_parseBlockArguments [intro!, simp]: "nogrow (parseBlockArguments h b)"
  unfolding parseBlockArguments_def
  by (auto intro!: nogrow_collectM nogrow_modify)

lemma shrinks_parseBlock [intro!, simp]: "shrinks (parseBlock h rs)"
  unfolding parseBlock_def
  by (rule shrinks_bind1) auto

lemma nogrow_createBlocks [intro!, simp]: "nogrow (createBlocks r n)"
  by (induction n) (auto intro!: nogrow_modify)

lemma nogrow_parseRegion [intro!, simp]: "nogrow (parseRegion h rs)"
  unfolding parseRegion_def
  by (auto intro!: shrinks_nogrow[OF shrinks_parseBlock])

function parseOps :: "host \<Rightarrow> RegionReadState \<Rightarrow> (RegionReadState \<times> (nat \<times> bool) option) M" where
  "parseOps h readState =
     (if numOpsRemaining readState = 0
      then ret (readState\<lparr>numOpsRemaining := numOpsRemaining readState - 1\<rparr>, None)
      else
        bind (parseOpWithoutRegions h
                (readState\<lparr>numOpsRemaining := numOpsRemaining readState - 1\<rparr>)) (\<lambda>opAndFlag.
        bind (gets (\<lambda>s. op_regions (ops s ! fst opAndFlag))) (\<lambda>opRegions.
          if opRegions \<noteq> []
          then ret (readState\<lparr>numOpsRemaining := numOpsRemaining readState - 1\<rparr>, Some opAndFlag)
          else parseOps h (readState\<lparr>numOpsRemaining := numOpsRemaining readState - 1\<rparr>))))"
  by pat_completeness auto
termination
  by (relation "measure (\<lambda>(h, readState). unat (numOpsRemaining readState))")
     (auto simp add: unat_minus_one unat_gt_0)

declare parseOps.simps [simp del]

lemma parseOps_unfold:
  "parseOps h readState s =
     (if numOpsRemaining readState = 0
      then (Ok (readState\<lparr>numOpsRemaining := numOpsRemaining readState - 1\<rparr>, None), s)
      else
        (case parseOpWithoutRegions h
                (readState\<lparr>numOpsRemaining := numOpsRemaining readState - 1\<rparr>) s of
           (Ok opAndFlag, s1) \<Rightarrow>
             if op_regions (ops s1 ! fst opAndFlag) \<noteq> []
             then (Ok (readState\<lparr>numOpsRemaining := numOpsRemaining readState - 1\<rparr>,
                       Some opAndFlag), s1)
             else parseOps h (readState\<lparr>numOpsRemaining := numOpsRemaining readState - 1\<rparr>) s1
         | (Failed d, s1) \<Rightarrow> (Failed d, s1)
         | (Crash, s1) \<Rightarrow> (Crash, s1)))"
  by (subst parseOps.simps)
     (simp add: bind_def ret_def gets_def split: prod.splits res.splits)

lemma parseOps_induct [consumes 1, case_names zero failed crashed child step]:
  assumes run: "parseOps h readState s = (res, s')"
    and zero: "\<And>rs s. numOpsRemaining rs = 0 \<Longrightarrow>
        P rs s (Ok (rs\<lparr>numOpsRemaining := numOpsRemaining rs - 1\<rparr>, None)) s"
    and failed: "\<And>rs s d s1. numOpsRemaining rs \<noteq> 0 \<Longrightarrow>
        parseOpWithoutRegions h (rs\<lparr>numOpsRemaining := numOpsRemaining rs - 1\<rparr>) s = (Failed d, s1) \<Longrightarrow>
        P rs s (Failed d) s1"
    and crashed: "\<And>rs s s1. numOpsRemaining rs \<noteq> 0 \<Longrightarrow>
        parseOpWithoutRegions h (rs\<lparr>numOpsRemaining := numOpsRemaining rs - 1\<rparr>) s = (Crash, s1) \<Longrightarrow>
        P rs s Crash s1"
    and child: "\<And>rs s opf s1. numOpsRemaining rs \<noteq> 0 \<Longrightarrow>
        parseOpWithoutRegions h (rs\<lparr>numOpsRemaining := numOpsRemaining rs - 1\<rparr>) s = (Ok opf, s1) \<Longrightarrow>
        op_regions (ops s1 ! fst opf) \<noteq> [] \<Longrightarrow>
        P rs s (Ok (rs\<lparr>numOpsRemaining := numOpsRemaining rs - 1\<rparr>, Some opf)) s1"
    and step: "\<And>rs s opf s1 res s'. numOpsRemaining rs \<noteq> 0 \<Longrightarrow>
        parseOpWithoutRegions h (rs\<lparr>numOpsRemaining := numOpsRemaining rs - 1\<rparr>) s = (Ok opf, s1) \<Longrightarrow>
        op_regions (ops s1 ! fst opf) = [] \<Longrightarrow>
        parseOps h (rs\<lparr>numOpsRemaining := numOpsRemaining rs - 1\<rparr>) s1 = (res, s') \<Longrightarrow>
        P (rs\<lparr>numOpsRemaining := numOpsRemaining rs - 1\<rparr>) s1 res s' \<Longrightarrow>
        P rs s res s'"
  shows "P readState s res s'"
  using run
proof (induction "unat (numOpsRemaining readState)" arbitrary: readState s rule: less_induct)
  case less
  let ?rs = "readState\<lparr>numOpsRemaining := numOpsRemaining readState - 1\<rparr>"
  show ?case
  proof (cases "numOpsRemaining readState = 0")
    case True
    with less.prems have "res = Ok (?rs, None)" "s' = s"
      by (simp_all add: parseOps_unfold)
    with zero[OF True] show ?thesis by simp
  next
    case False
    obtain r s1 where p: "parseOpWithoutRegions h ?rs s = (r, s1)"
      by (cases "parseOpWithoutRegions h ?rs s") auto
    show ?thesis
    proof (cases r)
      case (Ok opf)
      show ?thesis
      proof (cases "op_regions (ops s1 ! fst opf) = []")
        case True
        with less.prems False p Ok have run': "parseOps h ?rs s1 = (res, s')"
          by (simp add: parseOps_unfold[of h readState])
        have "unat (numOpsRemaining ?rs) < unat (numOpsRemaining readState)"
          using False by (simp add: unat_minus_one unat_gt_0)
        from less.hyps[OF this run'] step[OF False p[unfolded Ok] True run'] show ?thesis
          by blast
      next
        case nonempty: False
        with less.prems False p Ok have "res = Ok (?rs, Some opf)" "s' = s1"
          by (simp_all add: parseOps_unfold[of h readState])
        with child[OF False p[unfolded Ok] nonempty] show ?thesis by simp
      qed
    next
      case (Failed d)
      with less.prems False p have "res = Failed d" "s' = s1"
        by (simp_all add: parseOps_unfold[of h readState])
      with failed[OF False p[unfolded Failed]] show ?thesis by simp
    next
      case Crash
      with less.prems False p have "res = Crash" "s' = s1"
        by (simp_all add: parseOps_unfold[of h readState])
      with crashed[OF False p[unfolded Crash]] show ?thesis by simp
    qed
  qed
qed

lemma parseOps_progress:
  assumes "parseOps h rs s = (r, s')" and "r = Ok (rs', c)"
  shows "length (rd s') \<le> length (rd s) \<and> (c \<noteq> None \<longrightarrow> length (rd s') < length (rd s))"
  using assms
proof (induction arbitrary: rs' c rule: parseOps_induct)
  case (child rs s opf s1)
  from shrinksD[OF shrinks_parseOpWithoutRegions child(2)] show ?case by simp
next
  case (step rs s opf s1 res s')
  from shrinksD[OF shrinks_parseOpWithoutRegions step(2)] step(5)[OF step(6)]
  show ?case by simp
qed simp_all

lemma nogrow_parseOps [intro!, simp]: "nogrow (parseOps h rs)"
  unfolding nogrow_def using parseOps_progress by (metis prod.collapse)

lemma nogrow_parseOps_sym:
  "(r, s') = parseOps h rs s \<Longrightarrow> r = Ok x \<Longrightarrow> length (rd s') \<le> length (rd s)"
  using nogrowD[OF nogrow_parseOps, of h rs s x s'] by simp

lemma shrinks_parseBlock_sym:
  "(r, s') = parseBlock h rs s \<Longrightarrow> r = Ok x \<Longrightarrow> length (rd s') < length (rd s)"
  using shrinksD[OF shrinks_parseBlock, of h rs s x s'] by simp

function parseBlocks :: "host \<Rightarrow> RegionReadState \<Rightarrow> (RegionReadState \<times> (nat \<times> bool) option) M" where
  "parseBlocks h readState s =
     (case parseOps h readState s of
        (Ok (rs1, Some child), s1) \<Rightarrow> (Ok (rs1, Some child), s1)
      | (Ok (rs1, None), s1) \<Rightarrow>
          (case (regionRange rs1, curBlock rs1) of
             (r # later, Some i) \<Rightarrow>
               if Suc i = length (regions s1 ! r)
               then (Ok (rs1\<lparr>curBlock := Some (Suc i)\<rparr>, None), s1)
               else if Suc i > length (regions s1 ! r) then (Crash, s1)
               else
                 (case parseBlock h (rs1\<lparr>curBlock := Some (Suc i)\<rparr>) s1 of
                    (Ok rs2, s2) \<Rightarrow> parseBlocks h rs2 s2
                  | (Failed d, s2) \<Rightarrow> (Failed d, s2)
                  | (Crash, s2) \<Rightarrow> (Crash, s2))
           | _ \<Rightarrow> (Crash, s1))
      | (Failed d, s1) \<Rightarrow> (Failed d, s1)
      | (Crash, s1) \<Rightarrow> (Crash, s1))"
  by pat_completeness auto
termination
  apply (relation "measure (\<lambda>(h, readState, s). length (rd s))")
   apply simp
  apply simp
  apply (drule nogrow_parseOps_sym, simp)
  apply (drule shrinks_parseBlock_sym, simp)
  apply simp
  done

declare parseBlocks.simps [simp del]

lemma parseBlocks_induct [consumes 1, case_names child last step]:
  assumes run: "parseBlocks h readState s = (Ok res, s')"
    and child: "\<And>rs s rs1 ch s1. parseOps h rs s = (Ok (rs1, Some ch), s1) \<Longrightarrow>
        P rs s (rs1, Some ch) s1"
    and last: "\<And>rs s rs1 s1 r later i. parseOps h rs s = (Ok (rs1, None), s1) \<Longrightarrow>
        regionRange rs1 = r # later \<Longrightarrow> curBlock rs1 = Some i \<Longrightarrow>
        Suc i = length (regions s1 ! r) \<Longrightarrow>
        P rs s (rs1\<lparr>curBlock := Some (Suc i)\<rparr>, None) s1"
    and step: "\<And>rs s rs1 s1 r later i rs2 s2 res s'.
        parseOps h rs s = (Ok (rs1, None), s1) \<Longrightarrow>
        regionRange rs1 = r # later \<Longrightarrow> curBlock rs1 = Some i \<Longrightarrow>
        Suc i < length (regions s1 ! r) \<Longrightarrow>
        parseBlock h (rs1\<lparr>curBlock := Some (Suc i)\<rparr>) s1 = (Ok rs2, s2) \<Longrightarrow>
        parseBlocks h rs2 s2 = (Ok res, s') \<Longrightarrow>
        P rs2 s2 res s' \<Longrightarrow> P rs s res s'"
  shows "P readState s res s'"
  using run
proof (induction "length (rd s)" arbitrary: readState s rule: less_induct)
  case less
  obtain r s1 where po: "parseOps h readState s = (r, s1)"
    by (cases "parseOps h readState s") auto
  from less.prems po obtain rs1 ch where r: "r = Ok (rs1, ch)"
    by (subst (asm) parseBlocks.simps) (auto split: prod.splits res.splits option.splits)
  note prog = parseOps_progress[OF po r]
  show ?case
  proof (cases ch)
    case (Some c)
    with less.prems po r have "res = (rs1, Some c)" "s' = s1"
      by (simp_all add: parseBlocks.simps[of h readState s])
    with child[of readState s rs1 c s1] po r Some show ?thesis by simp
  next
    case None
    from less.prems po r None obtain rg later i where
      rr: "regionRange rs1 = rg # later" and cb: "curBlock rs1 = Some i"
      and le: "Suc i \<le> length (regions s1 ! rg)"
      by (subst (asm) parseBlocks.simps)
         (auto split: prod.splits res.splits option.splits list.splits if_splits)
    show ?thesis
    proof (cases "Suc i = length (regions s1 ! rg)")
      case True
      with less.prems po r None rr cb have "res = (rs1\<lparr>curBlock := Some (Suc i)\<rparr>, None)" "s' = s1"
        by (auto simp add: parseBlocks.simps[of h readState s])
      with last[of readState s rs1 s1 rg later i] po r None rr cb True show ?thesis by simp
    next
      case False
      with le have lt: "Suc i < length (regions s1 ! rg)" by simp
      with less.prems po r None rr cb obtain rs2 s2 where
        pb: "parseBlock h (rs1\<lparr>curBlock := Some (Suc i)\<rparr>) s1 = (Ok rs2, s2)"
        and rec: "parseBlocks h rs2 s2 = (Ok res, s')"
        by (subst (asm) parseBlocks.simps) (auto split: prod.splits res.splits)
      have "length (rd s2) < length (rd s)"
        using shrinksD[OF shrinks_parseBlock pb] prog by simp
      from less.hyps[OF this rec] step[of readState s rs1 s1 rg later i rs2 s2 res s'] po r None rr cb lt pb rec
      show ?thesis by simp
    qed
  qed
qed

lemma parseBlocks_progress:
  "parseBlocks h rs s = (Ok res, s') \<Longrightarrow>
   length (rd s') \<le> length (rd s) \<and> (snd res \<noteq> None \<longrightarrow> length (rd s') < length (rd s))"
proof (induction rule: parseBlocks_induct)
  case (child rs s rs1 ch s1)
  from parseOps_progress[OF this refl] show ?case by simp
next
  case (last rs s rs1 s1 r later i)
  from parseOps_progress[OF this(1) refl] show ?case by simp
next
  case (step rs s rs1 s1 r later i rs2 s2 res s')
  from parseOps_progress[OF step(1) refl] shrinksD[OF shrinks_parseBlock step(5)] step(7)
  show ?case by simp
qed

function parseRegionsLoop ::
  "host \<Rightarrow> RegionReadState \<Rightarrow> RegionReadState list \<Rightarrow> RegionReadState list M" where
  "parseRegionsLoop h readState rest s =
     (case regionRange readState of
        [] \<Rightarrow>
          if isIsolatedFromAbove readState
          then (case valueScopes s of
                  [] \<Rightarrow> (Crash, s)
                | sc # outer \<Rightarrow> (Ok rest, s\<lparr>valueScopes := outer\<rparr>))
          else (Ok rest, s)
      | r # later \<Rightarrow>
          (case (if curBlock readState = None then parseRegion h readState s
                 else (Ok readState, s)) of
             (Ok rs1, s1) \<Rightarrow>
               if curBlock readState = None \<and> regions s1 ! r = []
               then parseRegionsLoop h (rs1\<lparr>regionRange := later\<rparr>) rest s1
               else
                 (case parseBlocks h rs1 s1 of
                    (Ok (rs2, Some child), s2) \<Rightarrow>
                      (Ok (\<lparr>regionRange = op_regions (ops s2 ! fst child), numValues = 0,
                            curBlocks = [], curBlock = None, numOpsRemaining = 0,
                            isIsolatedFromAbove = snd child\<rparr> # rs2 # rest),
                           if snd child
                           then s2\<lparr>valueScopes := \<lparr>vs_values = [], nextValueIDs = []\<rparr> # valueScopes s2\<rparr>
                           else s2)
                  | (Ok (rs2, None), s2) \<Rightarrow>
                      (case popTopScope rs2 s2 of
                         (Ok u, s3) \<Rightarrow>
                           parseRegionsLoop h (rs2\<lparr>curBlock := None, regionRange := later\<rparr>) rest s3
                       | (Failed d, s3) \<Rightarrow> (Failed d, s3)
                       | (Crash, s3) \<Rightarrow> (Crash, s3))
                  | (Failed d, s2) \<Rightarrow> (Failed d, s2)
                  | (Crash, s2) \<Rightarrow> (Crash, s2))
           | (Failed d, s1) \<Rightarrow> (Failed d, s1)
           | (Crash, s1) \<Rightarrow> (Crash, s1)))"
  by pat_completeness auto
termination
  by (relation "measure (\<lambda>(h, readState, rest, s). length (regionRange readState))") auto

declare parseRegionsLoop.simps [simp del]

definition parseRegions :: "host \<Rightarrow> RegionReadState list \<Rightarrow> RegionReadState list M" where
  "parseRegions h regionStack =
     (case regionStack of
        [] \<Rightarrow> crash
      | readState # rest \<Rightarrow> parseRegionsLoop h readState rest)"

definition enterRegion :: "host \<Rightarrow> RegionReadState \<Rightarrow> RegionReadState M" where
  "enterRegion h readState s =
     (if curBlock readState = None then parseRegion h readState s else (Ok readState, s))"

definition childState :: "rstate \<Rightarrow> nat \<times> bool \<Rightarrow> RegionReadState" where
  "childState s child =
     \<lparr>regionRange = op_regions (ops s ! fst child), numValues = 0, curBlocks = [],
      curBlock = None, numOpsRemaining = 0, isIsolatedFromAbove = snd child\<rparr>"

lemma parseRegionsLoop_induct [consumes 1, case_names finished_isolated finished empty child step]:
  assumes run: "parseRegionsLoop h readState rest s = (Ok res, s')"
    and finished_isolated: "\<And>rs s sc outer. regionRange rs = [] \<Longrightarrow> isIsolatedFromAbove rs \<Longrightarrow>
        valueScopes s = sc # outer \<Longrightarrow> P rs s rest (s\<lparr>valueScopes := outer\<rparr>)"
    and finished: "\<And>rs s. regionRange rs = [] \<Longrightarrow> \<not> isIsolatedFromAbove rs \<Longrightarrow> P rs s rest s"
    and empty: "\<And>rs s r later rs1 s1 res s'. regionRange rs = r # later \<Longrightarrow>
        curBlock rs = None \<Longrightarrow> parseRegion h rs s = (Ok rs1, s1) \<Longrightarrow> regions s1 ! r = [] \<Longrightarrow>
        parseRegionsLoop h (rs1\<lparr>regionRange := later\<rparr>) rest s1 = (Ok res, s') \<Longrightarrow>
        P (rs1\<lparr>regionRange := later\<rparr>) s1 res s' \<Longrightarrow> P rs s res s'"
    and child: "\<And>rs s r later rs1 s1 rs2 ch s2. regionRange rs = r # later \<Longrightarrow>
        enterRegion h rs s = (Ok rs1, s1) \<Longrightarrow>
        \<not> (curBlock rs = None \<and> regions s1 ! r = []) \<Longrightarrow>
        parseBlocks h rs1 s1 = (Ok (rs2, Some ch), s2) \<Longrightarrow>
        P rs s (childState s2 ch # rs2 # rest)
          (if snd ch then s2\<lparr>valueScopes := \<lparr>vs_values = [], nextValueIDs = []\<rparr> # valueScopes s2\<rparr>
           else s2)"
    and step: "\<And>rs s r later rs1 s1 rs2 s2 u s3 res s'. regionRange rs = r # later \<Longrightarrow>
        enterRegion h rs s = (Ok rs1, s1) \<Longrightarrow>
        \<not> (curBlock rs = None \<and> regions s1 ! r = []) \<Longrightarrow>
        parseBlocks h rs1 s1 = (Ok (rs2, None), s2) \<Longrightarrow>
        popTopScope rs2 s2 = (Ok u, s3) \<Longrightarrow>
        parseRegionsLoop h (rs2\<lparr>curBlock := None, regionRange := later\<rparr>) rest s3 = (Ok res, s') \<Longrightarrow>
        P (rs2\<lparr>curBlock := None, regionRange := later\<rparr>) s3 res s' \<Longrightarrow> P rs s res s'"
  shows "P readState s res s'"
  using run
proof (induction "length (regionRange readState)" arbitrary: readState s rule: less_induct)
  case less
  show ?case
  proof (cases "regionRange readState")
    case Nil
    with less.prems show ?thesis
      using finished_isolated[of readState s] finished[of readState s]
      by (subst (asm) parseRegionsLoop.simps) (auto split: if_splits list.splits)
  next
    case (Cons r later)
    from less.prems Cons obtain rs1 s1 where
      er: "enterRegion h readState s = (Ok rs1, s1)"
      by (subst (asm) parseRegionsLoop.simps)
         (auto simp add: enterRegion_def split: if_splits prod.splits res.splits)
    show ?thesis
    proof (cases "curBlock readState = None \<and> regions s1 ! r = []")
      case True
      with er have pr: "parseRegion h readState s = (Ok rs1, s1)"
        by (simp add: enterRegion_def)
      from less.prems Cons True pr
      have rec: "parseRegionsLoop h (rs1\<lparr>regionRange := later\<rparr>) rest s1 = (Ok res, s')"
        by (subst (asm) parseRegionsLoop.simps) simp
      have "length (regionRange (rs1\<lparr>regionRange := later\<rparr>)) < length (regionRange readState)"
        using Cons by simp
      from True have c1: "curBlock readState = None" and c2: "regions s1 ! r = []" by simp_all
      from empty[OF Cons c1 pr c2 rec less.hyps[OF \<open>length (regionRange (rs1\<lparr>regionRange := later\<rparr>)) < length (regionRange readState)\<close> rec]]
      show ?thesis .
    next
      case False
      from less.prems Cons er False obtain rs2 c s2 where
        pb: "parseBlocks h rs1 s1 = (Ok (rs2, c), s2)"
        by (subst (asm) parseRegionsLoop.simps)
           (auto simp add: enterRegion_def split: if_splits prod.splits res.splits option.splits)
      show ?thesis
      proof (cases c)
        case (Some ch)
        from less.prems Cons er False pb Some
        have "res = childState s2 ch # rs2 # rest"
          "s' = (if snd ch then s2\<lparr>valueScopes := \<lparr>vs_values = [], nextValueIDs = []\<rparr> # valueScopes s2\<rparr> else s2)"
          by (subst (asm) parseRegionsLoop.simps;
              auto simp add: enterRegion_def childState_def split: if_splits)+
        with child[OF Cons er False pb[unfolded Some]] show ?thesis by simp
      next
        case None
        from less.prems Cons er False pb None obtain u s3 where
          pop: "popTopScope rs2 s2 = (Ok u, s3)"
          and rec: "parseRegionsLoop h (rs2\<lparr>curBlock := None, regionRange := later\<rparr>) rest s3 = (Ok res, s')"
          by (subst (asm) parseRegionsLoop.simps)
             (auto simp add: enterRegion_def split: if_splits prod.splits res.splits)
        have "length (regionRange (rs2\<lparr>curBlock := None, regionRange := later\<rparr>))
              < length (regionRange readState)"
          using Cons by simp
        from step[OF Cons er False pb[unfolded None] pop rec less.hyps[OF this rec]]
        show ?thesis .
      qed
    qed
  qed
qed

lemma nogrow_enterRegion [intro!, simp]: "nogrow (enterRegion h rs)"
  unfolding nogrow_def enterRegion_def
  using nogrowD[OF nogrow_parseRegion] by (auto split: if_splits)

lemma parseRegionsLoop_progress:
  "parseRegionsLoop h rs rest s = (Ok res, s') \<Longrightarrow>
   (res = rest \<and> length (rd s') \<le> length (rd s)) \<or> length (rd s') < length (rd s)"
proof (induction rule: parseRegionsLoop_induct)
  case (empty rs s r later rs1 s1 res s')
  from nogrowD[OF nogrow_parseRegion empty(3)] empty(6) show ?case by auto
next
  case (child rs s r later rs1 s1 rs2 ch s2)
  from nogrowD[OF nogrow_enterRegion child(2)] parseBlocks_progress[OF child(4)]
  show ?case by auto
next
  case (step rs s r later rs1 s1 rs2 s2 u s3 res s')
  from nogrowD[OF nogrow_enterRegion step(2)] parseBlocks_progress[OF step(4)]
    nogrowD[OF nogrow_scopes(2) step(5)] step(7)
  show ?case by auto
qed simp_all

function parseIRLoop :: "host \<Rightarrow> RegionReadState list \<Rightarrow> unit M" where
  "parseIRLoop h regionStack s =
     (case regionStack of
        [] \<Rightarrow> (Ok (), s)
      | readState # rest \<Rightarrow>
          (case parseRegionsLoop h readState rest s of
             (Ok regionStack', s') \<Rightarrow> parseIRLoop h regionStack' s'
           | (Failed d, s') \<Rightarrow> (Failed d, s')
           | (Crash, s') \<Rightarrow> (Crash, s')))"
  by pat_completeness auto
termination
proof (relation "measures [\<lambda>(h, regionStack, s). length (rd s), \<lambda>(h, regionStack, s). length regionStack]",
       goal_cases)
  case 1
  show ?case by simp
next
  case (2 h regionStack s readState rest x y regionStack')
  then have "parseRegionsLoop h readState rest s = (Ok regionStack', y)" by simp
  from parseRegionsLoop_progress[OF this] 2 show ?case by auto
qed

declare parseIRLoop.simps [simp del]

text \<open>
  Modelled from the spec: \<open>ModuleOp::create\<close> belongs to the host. The module has one
  region holding one block, its body (section 4.6).
\<close>

definition createModuleOp :: "host \<Rightarrow> nat M" where
  "createModuleOp h =
     bind createBlock (\<lambda>body.
     bind (createRegions 1) (\<lambda>moduleRegions.
     bind (modify (\<lambda>s. s\<lparr>regions := (regions s)[hd moduleRegions := [body]]\<rparr>)) (\<lambda>_.
       createOperation
         \<lparr>op_name = string_bytes ''builtin.module'', op_loc = fileLoc h, op_attrs = None,
          op_types = [], op_operands = [], op_successors = [], op_regions = moduleRegions\<rparr>)))"

text \<open>
  The splice at the end of \<open>parseIRSection\<close>: the parsed operations leave the body of the
  module and enter the destination before its last operation, or at its end when it is
  empty.
\<close>

definition spliceParsedOps :: "nat \<Rightarrow> unit M" where
  "spliceParsedOps body =
     modify (\<lambda>s.
       s\<lparr>target := (if target s = [] then b_ops (blocks s ! body)
                     else butlast (target s) @ b_ops (blocks s ! body) @ [last (target s)]),
         blocks := (blocks s)[body := (blocks s ! body)\<lparr>b_ops := []\<rparr>]\<rparr>)"

text \<open>
  \<open>parseIRSection\<close> in two parts. \<open>parseModuleBody\<close> is its first part: it creates the
  temporary module, reads the header of its body block, pushes the first value scope and
  runs the loop over the region stack; it returns the module and its body block.
  \<open>parseIRSection\<close> then checks the forward references, verifies the module and splices.
\<close>

definition parseModuleBody :: "host \<Rightarrow> byte list \<Rightarrow> (nat \<times> nat) M" where
  "parseModuleBody h sectionData =
     bind (modify (\<lambda>s. s\<lparr>rd := sectionData\<rparr>)) (\<lambda>_.
     bind (createModuleOp h) (\<lambda>moduleOp.
     bind (gets (\<lambda>s. op_regions (ops s ! moduleOp))) (\<lambda>moduleRegions.
     bind (gets (\<lambda>s. hd (regions s ! hd moduleRegions))) (\<lambda>body.
     bind (parseBlock h
             \<lparr>regionRange = moduleRegions, numValues = 0, curBlocks = [body],
              curBlock = Some 0, numOpsRemaining = 0, isIsolatedFromAbove = True\<rparr>) (\<lambda>readState.
     bind (modify (\<lambda>s. s\<lparr>valueScopes := \<lparr>vs_values = [], nextValueIDs = []\<rparr> # valueScopes s\<rparr>)) (\<lambda>_.
     bind (pushTopScope readState) (\<lambda>_.
     bind (parseIRLoop h [readState]) (\<lambda>_.
       ret (moduleOp, body)))))))))"

definition parseIRSection :: "host \<Rightarrow> byte list \<Rightarrow> unit M" where
  "parseIRSection h sectionData =
     bind (parseModuleBody h sectionData) (\<lambda>module.
     bind (gets forwardRefOps) (\<lambda>active.
       if active \<noteq> [] then emitError ForwardRefsUnresolved
       else
         bind (gets (\<lambda>s. verify h (ops s) (blocks s) (regions s) (fst module))) (\<lambda>verified.
           if \<not> verified then emitError HostVerifierDiag
           else spliceParsedOps (snd module))))"

section \<open>Reading a file\<close>

definition parseVersion :: "host \<Rightarrow> unit M" where
  "parseVersion h =
     bind (withReader parseVarInt) (\<lambda>v.
     bind (modify (\<lambda>s. s\<lparr>version := v\<rparr>)) (\<lambda>_.
       if v < kVersion h then emitError (VersionOlder v (kVersion h))
       else if v > kVersion h then emitError (VersionNewer v (kVersion h))
       else ret ()))"

definition gatherAllSections :: "reader \<Rightarrow> diag + (byte list option list \<times> reader)" where
  "gatherAllSections r =
     (case gatherSections (replicate kNumSections None) r of
        Inl d \<Rightarrow> Inl d
      | Inr sectionDatas \<Rightarrow> Inr (sectionDatas, []))"

definition derefSection :: "byte list option list \<Rightarrow> nat \<Rightarrow> byte list" where
  "derefSection sectionDatas i = (case sectionDatas ! i of Some d \<Rightarrow> d | None \<Rightarrow> [])"

definition read :: "host \<Rightarrow> byte list \<Rightarrow> unit M" where
  "read h buffer =
     bind (modify (\<lambda>s. s\<lparr>rd := buffer\<rparr>)) (\<lambda>_.
     bind (withReader (skipBytes 4)) (\<lambda>_.
     bind (parseVersion h) (\<lambda>_.
     bind (withReader parseNullTerminatedString) (\<lambda>p.
     bind (modify (\<lambda>s. s\<lparr>producer := p\<rparr>)) (\<lambda>_.
     bind (withReader gatherAllSections) (\<lambda>sectionDatas.
       case find (\<lambda>i. sectionDatas ! i = None) [0..<kNumSections] of
         Some i \<Rightarrow> emitError (MissingSection i)
       | None \<Rightarrow>
           bind (parseStringSectionInto (derefSection sectionDatas kString)) (\<lambda>_.
           bind (parseDialectSection (derefSection sectionDatas kDialect)) (\<lambda>_.
           bind (initialize (derefSection sectionDatas kAttrType)
                            (derefSection sectionDatas kAttrTypeOffset)) (\<lambda>_.
             parseIRSection h (derefSection sectionDatas kIR))))))))))"

text \<open>
  The part of \<open>read\<close> that comes before the IR section: the header, the version, the
  producer, the sections, and the string, dialect and attribute/type tables. It returns the
  data of the IR section, so that \<open>read\<close> is \<open>readTables\<close> followed by \<open>parseIRSection\<close>.
\<close>

definition readTables :: "host \<Rightarrow> byte list \<Rightarrow> byte list M" where
  "readTables h buffer =
     bind (modify (\<lambda>s. s\<lparr>rd := buffer\<rparr>)) (\<lambda>_.
     bind (withReader (skipBytes 4)) (\<lambda>_.
     bind (parseVersion h) (\<lambda>_.
     bind (withReader parseNullTerminatedString) (\<lambda>p.
     bind (modify (\<lambda>s. s\<lparr>producer := p\<rparr>)) (\<lambda>_.
     bind (withReader gatherAllSections) (\<lambda>sectionDatas.
       case find (\<lambda>i. sectionDatas ! i = None) [0..<kNumSections] of
         Some i \<Rightarrow> emitError (MissingSection i)
       | None \<Rightarrow>
           bind (parseStringSectionInto (derefSection sectionDatas kString)) (\<lambda>_.
           bind (parseDialectSection (derefSection sectionDatas kDialect)) (\<lambda>_.
           bind (initialize (derefSection sectionDatas kAttrType)
                            (derefSection sectionDatas kAttrTypeOffset)) (\<lambda>_.
             ret (derefSection sectionDatas kIR))))))))))"

definition isBytecode :: "byte list \<Rightarrow> bool" where
  "isBytecode buffer = (take 4 buffer = [0x4D, 0x4C, 0xEF, 0x52])"

text \<open>
  A \<open>BytecodeReader\<close> is constructed for each call: its own fields start empty, while the
  host context, the host IR and the destination block are the caller's.
\<close>

definition freshReader :: "rstate \<Rightarrow> rstate" where
  "freshReader s =
     s\<lparr>rd := [], version := 0, producer := [], stringData := [], strings := [],
       dialects := [], opNames := [], attributes := [], types := [], valueScopes := [],
       forwardRefOps := [], openForwardRefOps := []\<rparr>"

definition readBytecodeFile :: "host \<Rightarrow> byte list \<Rightarrow> unit M" where
  "readBytecodeFile h buffer =
     (if \<not> isBytecode buffer then emitError NotBytecodeFile
      else bind (modify freshReader) (\<lambda>_. read h buffer))"

definition host0 :: host where
  "host0 = \<lparr>kVersion = 0, getOrLoadDialect = (\<lambda>n. Some 0), allowsUnregisteredDialects = False,
     asmParseAttribute = (\<lambda>bs. Some (LocationAttr (length bs), length bs)),
     asmParseType = (\<lambda>bs. Some (HostType (length bs), length bs)),
     verify = (\<lambda>a b c d. True), fileLoc = UnknownLoc\<rparr>"

definition world0 :: rstate where
  "world0 = \<lparr>rd = [], ctxLoads = [], version = 0, producer = [], stringData = [], strings = [],
     dialects = [], opNames = [], attributes = [], types = [], valueScopes = [],
     forwardRefOps = [], openForwardRefOps = [], ops = [], blocks = [], regions = [],
     target = []\<rparr>"

section \<open>Relations between the state before and after a step\<close>

text \<open>
  \<open>keeps R f\<close>: whatever \<open>f\<close> returns, also a failure or a crash, the state it leaves is
  related by \<open>R\<close> to the state it started from. A relation is \<open>framed\<close> when it is transitive
  and holds between two states that agree on the destination block, the dialect table and
  the loads asked of the context.
\<close>

definition protected :: "rstate \<Rightarrow> nat list \<times> BytecodeDialect list \<times> byte list list" where
  "protected s = (target s, dialects s, ctxLoads s)"

definition keeps :: "(rstate \<Rightarrow> rstate \<Rightarrow> bool) \<Rightarrow> 'a M \<Rightarrow> bool" where
  "keeps R f = (\<forall>s r s'. f s = (r, s') \<longrightarrow> R s s')"

definition framed :: "(rstate \<Rightarrow> rstate \<Rightarrow> bool) \<Rightarrow> bool" where
  "framed R = ((\<forall>a b c. R a b \<longrightarrow> R b c \<longrightarrow> R a c) \<and> (\<forall>s s'. protected s' = protected s \<longrightarrow> R s s'))"

definition sameTarget :: "rstate \<Rightarrow> rstate \<Rightarrow> bool" where
  "sameTarget s s' = (target s' = target s)"

section \<open>Concrete hosts and files\<close>

text \<open>
  A host whose context knows every dialect and whose assembly parser accepts every string,
  and an empty world. \<open>file1\<close> holds one top-level operation \<open>d.o\<close> without results; \<open>file2\<close>
  gives that operation one result; the IR section of \<open>file3\<close> is the block header
  \<open>[0x03, 0x01]\<close>, which announces block arguments and gives none; that of \<open>file4\<close> is the
  header \<open>[0x01]\<close> of an empty block without arguments. \<open>world1\<close> is a world whose
  destination block already holds two operations, none of them a terminator.
\<close>

definition file1 :: "byte list" where
  "file1 = [0x4D, 0x4C, 0xEF, 0x52, 0x01, 0x00,
     0, 0x0F, 5, 5, 5, 0x64, 0, 0x6F, 0,
     1, 0x0B, 3, 1, 1, 3, 3,
     2, 0x05, 0x6C, 0,
     3, 0x0B, 3, 1, 1, 3, 9,
     4, 0x09, 5, 1, 0, 1]"

definition file2 :: "byte list" where
  "file2 = [0x4D, 0x4C, 0xEF, 0x52, 0x01, 0x00,
     0, 0x0F, 5, 5, 5, 0x64, 0, 0x6F, 0,
     1, 0x0B, 3, 1, 1, 3, 3,
     2, 0x09, 0x6C, 0, 0x74, 0,
     3, 0x11, 3, 3, 1, 3, 9, 1, 3, 9,
     4, 0x0D, 5, 1, 2, 1, 3, 1]"

definition file3 :: "byte list" where
  "file3 = [0x4D, 0x4C, 0xEF, 0x52, 0x01, 0x00,
     0, 3, 1,   1, 3, 1,   2, 1,   3, 5, 1, 1,   4, 5, 3, 1]"

definition file4 :: "byte list" where
  "file4 = [0x4D, 0x4C, 0xEF, 0x52, 0x01, 0x00,
     0, 3, 1,   1, 3, 1,   2, 1,   3, 5, 1, 1,   4, 3, 1]"

definition hostOp :: Operation where
  "hostOp = \<lparr>op_name = string_bytes ''d.o'', op_loc = UnknownLoc, op_attrs = None, op_types = [],
     op_operands = [], op_successors = [], op_regions = []\<rparr>"

definition world1 :: rstate where
  "world1 = world0\<lparr>ops := [hostOp, hostOp], target := [0, 1]\<rparr>"

text \<open>
  The splice as the specification words it: before the terminator of the destination if it
  has one, at its end otherwise. \<open>isTerminator\<close> is the host's notion of a terminator.
\<close>

definition isReturn :: "Operation \<Rightarrow> bool" where
  "isReturn op = (op_name op = string_bytes ''func.return'')"

definition claimedSplice :: "(Operation \<Rightarrow> bool) \<Rightarrow> Operation list \<Rightarrow> nat list \<Rightarrow> nat list \<Rightarrow> nat list" where
  "claimedSplice isTerminator store dest parsed =
     (if dest \<noteq> [] \<and> isTerminator (store ! last dest)
      then butlast dest @ parsed @ [last dest]
      else dest @ parsed)"

section \<open>Relations that tell success from failure\<close>

text \<open>
  \<open>keeps2 Rok Rany f\<close>: the state \<open>f\<close> leaves is related to the one it started from by \<open>Rok\<close>
  when \<open>f\<close> returns a result and by \<open>Rany\<close> when it fails or crashes. \<open>framed2\<close> asks of the
  two relations what sequencing needs: \<open>Rok\<close> is framed and included in \<open>Rany\<close>, and a step
  related by \<open>Rok\<close> followed by one related by \<open>Rany\<close> is related by \<open>Rany\<close>.
\<close>

definition after :: "(rstate \<Rightarrow> rstate \<Rightarrow> bool) \<Rightarrow> (rstate \<Rightarrow> rstate \<Rightarrow> bool) \<Rightarrow> 'a res \<Rightarrow> rstate \<Rightarrow> rstate \<Rightarrow> bool" where
  "after Rok Rany r s s' = (case r of Ok x \<Rightarrow> Rok s s' | Failed d \<Rightarrow> Rany s s' | Crash \<Rightarrow> Rany s s')"



section \<open>Loads of dialects\<close>








section \<open>Properties of the variable-length integer codec\<close>

lemma wordOf_slice:
  "wordOf (map (\<lambda>i. ucast (drop_bit (8 * i) w)) [k..<k + n]) = take_bit (8 * n) (drop_bit (8 * k) w)"
proof (induction n arbitrary: k)
  case 0
  show ?case by simp
next
  case (Suc n)
  have e: "[k..<k + Suc n] = k # [Suc k..<Suc k + n]"
    by (simp add: upt_rec)
  have ih: "wordOf (map (\<lambda>i. ucast (drop_bit (8 * i) w)) [Suc k..<Suc k + n]) = take_bit (8 * n) (drop_bit (8 * Suc k) w)"
    using Suc.IH[of "Suc k"] .
  show ?case
    unfolding e list.map wordOf.simps ih
  proof (rule bit_eqI)
    fix i
    assume "possible_bit TYPE(u64) i"
    then have i64: "i < 64" by (simp add: possible_bit_word)
    show "bit (ucast (ucast (drop_bit (8 * k) w) :: byte) OR push_bit 8 (take_bit (8 * n) (drop_bit (8 * Suc k) w))) i
        = bit (take_bit (8 * Suc n) (drop_bit (8 * k) w)) i"
    proof (cases "i < 8")
      case True
      then show ?thesis by (simp add: bit_simps)
    next
      case False
      then have "8 * k + 8 + (i - 8) = 8 * k + i" by simp
      with False i64 show ?thesis by (auto simp add: bit_simps)
    qed
  qed
qed


lemma wordOf_leBytes: "wordOf (leBytes n w) = take_bit (8 * n) w"
  using wordOf_slice[of w 0 n] by (simp add: leBytes_def)

lemma length_leBytes [simp]: "length (leBytes n w) = n"
  by (simp add: leBytes_def)

lemma bytesOf_leBytes: "bytesOf w = leBytes 8 w"
  by (simp add: bytesOf_def leBytes_def)

lemma rt9: "parseVarInt (encodeVarIntLen 9 x @ rest) = Inr (x, rest)"
  using wordOf_leBytes[of 8 x] take_bit_word_eq_self[of 64 x]
  by (simp add: encodeVarIntLen_def parseVarInt_def parseByte_def parseBytes_def size_r_def memcpyInto_def bytesOf_leBytes)

lemma ctz_eq:
  "k < n \<Longrightarrow> bit w k \<Longrightarrow> (\<forall>j<k. \<not> bit w j) \<Longrightarrow> countTrailingZeros n w = k"
proof (induction n arbitrary: w k)
  case 0
  then show ?case by simp
next
  case (Suc n)
  show ?case
  proof (cases k)
    case 0
    with Suc.prems show ?thesis by simp
  next
    case (Suc k')
    have nb: "\<not> bit w 0" using Suc.prems(3) Suc by simp
    have "countTrailingZeros n (drop_bit 1 w) = k'"
    proof (rule Suc.IH)
      show "k' < n" using Suc.prems(1) Suc by simp
      show "bit (drop_bit 1 w) k'" using Suc.prems(2) Suc by (simp add: bit_drop_bit_eq)
      show "\<forall>j<k'. \<not> bit (drop_bit 1 w) j" using Suc.prems(3) Suc by (simp add: bit_drop_bit_eq)
    qed
    with nb Suc show ?thesis by simp
  qed
qed

lemma wordOf_zeros: "wordOf (xs @ replicate k 0) = wordOf xs"
  by (induction xs) (simp_all, induction k, simp_all)


lemma leBytes_Suc: "leBytes (Suc n) w = ucast w # map (\<lambda>i. ucast (drop_bit (8 * i) w)) [1..<Suc n]"
  by (simp add: leBytes_def upt_conv_Cons del: upt_Suc)

lemma upt8: "[0..<8] = [0,1,2,3,4,5,6,7]" by (simp add: upt_rec)

lemma bytesOf_ucast: "bytesOf (ucast (b::byte)) = [b, 0, 0, 0, 0, 0, 0, 0]"
proof -
  have z: "(ucast (drop_bit i (ucast b :: u64)) :: byte) = 0" if "i \<ge> 8" for i
    by (rule bit_eqI) (use that in \<open>auto simp add: bit_simps dest: bit_imp_le_length\<close>)
  have "(ucast (ucast b :: u64) :: byte) = b"
    by (rule bit_eqI) (simp add: bit_simps)
  then show ?thesis
    by (simp add: bytesOf_def upt8 z)
qed


lemma enc_bits:
  fixes x :: u64
  assumes m: "1 \<le> m" "m \<le> 8"
  defines "w \<equiv> push_bit m x OR push_bit (m - 1) 1"
  shows "bit w (m - 1)" and "\<forall>j<m - 1. \<not> bit w j"
  using m by (auto simp add: w_def bit_simps)

lemma enc_word:
  fixes x :: u64
  assumes m: "1 \<le> m" "m \<le> 8" and x: "x < 2 ^ (7 * m)"
  defines "w \<equiv> push_bit m x OR push_bit (m - 1) 1"
  shows "drop_bit m (take_bit (8 * m) w) = x"
proof (rule bit_eqI)
  fix i assume "possible_bit TYPE(u64) i"
  then have i64: "i < 64" by (simp add: possible_bit_word)
  have hi: "\<not> bit x j" if "j \<ge> 7 * m" for j
  proof -
    have "take_bit (7 * m) x = x"
      using less_mask_eq[OF x] by (simp add: take_bit_eq_mask)
    then have "bit x j = bit (take_bit (7 * m) x) j" by simp
    then show ?thesis using that by (simp add: bit_take_bit_iff)
  qed
  show "bit (drop_bit m (take_bit (8 * m) w)) i = bit x i"
  proof (cases "bit x i")
    case True
    then have "i < 7 * m" using hi[of i] by (cases "i < 7 * m") auto
    then have "m + i < 8 * m" "m + i < 64" using m by auto
    with True m show ?thesis by (auto simp add: w_def bit_simps)
  next
    case False
    with m show ?thesis by (auto simp add: w_def bit_simps)
  qed
qed


lemma enc_take:
  fixes x :: u64
  assumes m: "1 \<le> m" "m \<le> 8"
  shows "(ucast (ucast (push_bit m x OR push_bit (m - 1) 1 :: u64) :: byte) :: u64) AND 1 \<noteq> 0 \<longleftrightarrow> m = 1"
proof -
  let ?w = "push_bit m x OR push_bit (m - 1) 1 :: u64"
  have a: "(u AND 1 \<noteq> 0) = bit u 0" for u :: u64
    by (simp add: and_one_eq bit_0 mod_2_eq_odd)
  have "(ucast (ucast ?w :: byte) :: u64) AND 1 \<noteq> 0 \<longleftrightarrow> bit ?w 0"
    unfolding a by (simp add: bit_simps)
  also have "\<dots> \<longleftrightarrow> m = 1" using m by (auto simp add: bit_simps)
  finally show ?thesis .
qed


lemma and1_bit0: "(u AND 1 \<noteq> 0) = bit u 0" for u :: u64
  by (simp add: and_one_eq bit_0 mod_2_eq_odd)

lemma rt_multi:
  fixes x :: u64
  assumes m: "2 \<le> m" "m \<le> 8" and x: "x < 2 ^ (7 * m)"
  shows "parseVarInt (encodeVarIntLen m x @ rest) = Inr (x, rest)"
proof -
  define w :: u64 where "w = push_bit m x OR push_bit (m - 1) 1"
  define tl where "tl = map (\<lambda>i. ucast (drop_bit (8 * i) w) :: byte) [1..<m]"
  define b :: byte where "b = ucast w"
  define result :: u64 where "result = ucast b"
  obtain m' where m': "m = Suc m'" using m by (cases m) auto
  have lb: "leBytes m w = b # tl"
    unfolding m' leBytes_Suc tl_def b_def by simp
  have "encodeVarIntLen m x = leBytes m w"
    using m by (simp add: encodeVarIntLen_def w_def)
  with lb have enc: "encodeVarIntLen m x = b # tl" by simp
  have ltl: "length tl = m - 1" by (simp add: tl_def)
  have b1: "bit w (m - 1)" and b2: "\<forall>j<m - 1. \<not> bit w j"
    using enc_bits[of m x] m by (simp_all add: w_def)
  have r1: "\<not> (result AND 1 \<noteq> 0)"
    using enc_take[of m x] m by (simp add: result_def b_def w_def)
  have r0: "result \<noteq> 0"
  proof
    assume "result = 0"
    then have "\<not> bit result (m - 1)" by simp
    moreover have "bit result (m - 1)" using b1 m by (auto simp add: result_def b_def bit_simps)
    ultimately show False by simp
  qed
  have ctz: "countTrailingZeros 32 (ucast result :: u32) = m - 1"
  proof (rule ctz_eq)
    show "m - 1 < 32" using m by simp
    show "bit (ucast result :: u32) (m - 1)" using b1 m by (auto simp add: result_def b_def bit_simps)
    show "\<forall>j<m - 1. \<not> bit (ucast result :: u32) j" using b2 by (auto simp add: result_def b_def bit_simps)
  qed
  have mc: "memcpyInto result 1 tl = take_bit (8 * m) w"
  proof -
    have rep: "[b, 0, 0, 0, 0, 0, 0, 0] = b # replicate 7 0"
      by (simp add: numeral_eq_Suc)
    have "drop m (b # replicate 7 0) = replicate (8 - m) 0"
      using m by (simp add: m')
    then have "take 1 (bytesOf result) @ tl @ drop (1 + length tl) (bytesOf result) = leBytes m w @ replicate (8 - m) 0"
      using m unfolding result_def bytesOf_ucast rep by (simp add: ltl lb)
    then show ?thesis
      by (simp add: memcpyInto_def wordOf_zeros wordOf_leBytes)
  qed
  have "drop_bit m (take_bit (8 * m) w) = x"
    using enc_word[of m x] m x by (simp add: w_def)
  moreover have pb: "parseBytes (m - 1) (tl @ rest) = Inr (tl, rest)"
    by (simp add: parseBytes_def size_r_def ltl)
  moreover have "m - 1 + 1 = m" using m by simp
  ultimately show ?thesis
    using r1 r0 ctz mc
    by (simp add: enc parseVarInt_def parseByte_def result_def[symmetric] parseMultiByteVarInt_def Let_def)
qed


lemma rt1:
  fixes x :: u64
  assumes x: "x < 2 ^ 7"
  shows "parseVarInt (encodeVarIntLen 1 x @ rest) = Inr (x, rest)"
proof -
  define w :: u64 where "w = push_bit 1 x OR 1"
  have r1: "(ucast (ucast w :: byte) :: u64) AND 1 \<noteq> 0"
    using enc_take[of 1 x] by (simp add: w_def)
  have "drop_bit 1 (take_bit (8 * 1) w) = x"
    using enc_word[of 1 x] x by (simp add: w_def)
  moreover have "(ucast (ucast w :: byte) :: u64) = take_bit 8 w"
    by (rule bit_eqI) (auto simp add: bit_simps)
  moreover have "encodeVarIntLen 1 x = [ucast w]"
    by (simp add: encodeVarIntLen_def leBytes_def w_def)
  ultimately show ?thesis
    using r1 by (simp add: parseVarInt_def parseByte_def)
qed

lemma minCategory_range: "1 \<le> minCategory x" "minCategory x \<le> 9"
  by (simp_all add: minCategory_def)

lemma word_less_pow_mono:
  fixes x :: u64
  assumes "x < 2 ^ a" "a \<le> b" "b < 64"
  shows "x < 2 ^ b"
proof -
  have xa: "x AND mask a = x" using assms(1) by (rule less_mask_eq)
  have "x AND mask b = x"
  proof (rule bit_eqI)
    fix i
    have "bit (x AND mask a) i = bit x i" by (simp only: xa)
    then have "bit x i \<Longrightarrow> i < a" by (simp add: bit_simps)
    then show "bit (x AND mask b) i = bit x i"
      using assms(2,3) by (auto simp add: bit_simps)
  qed
  moreover have "x AND mask b < 2 ^ b"
    by (rule and_mask_less_size) (simp add: word_size assms(3))
  ultimately show ?thesis by simp
qed

lemma minCategory_bound:
  assumes "minCategory x \<le> m" "m \<le> 8"
  shows "x < 2 ^ (7 * m)"
proof -
  have "minCategory x \<le> 8" using assms by simp
  then have "x < 2 ^ (7 * minCategory x)"
    by (simp add: minCategory_def split: if_splits)
  then show ?thesis
    by (rule word_less_pow_mono) (use assms in simp_all)
qed

lemma rt_any:
  assumes "minCategory x \<le> m" "m \<le> 9"
  shows "parseVarInt (encodeVarIntLen m x @ rest) = Inr (x, rest)"
proof -
  have m1: "1 \<le> m" using assms minCategory_range(1)[of x] by simp
  consider "m = 1" | "2 \<le> m" "m \<le> 8" | "m = 9" using m1 assms by linarith
  then show ?thesis
  proof cases
    case 1
    then show ?thesis using rt1[of x rest] minCategory_bound[of x 1] assms by simp
  next
    case 2
    then show ?thesis using rt_multi[of m x rest] minCategory_bound[of x m] assms by simp
  next
    case 3
    then show ?thesis by (simp add: rt9)
  qed
qed

lemma length_enc: "1 \<le> m \<Longrightarrow> m \<le> 9 \<Longrightarrow> length (encodeVarIntLen m x) = m"
  by (auto simp add: encodeVarIntLen_def)


lemma flag_bits:
  fixes x :: u64
  assumes "x < 2 ^ 63"
  shows "drop_bit 1 (push_bit 1 x OR (if f then 1 else 0)) = x"
    and "((push_bit 1 x OR (if f then 1 else 0)) AND 1 \<noteq> 0) = f"
proof -
  have hi: "\<not> bit x 63"
  proof -
    have "take_bit 63 x = x"
      using less_mask_eq[OF assms] by (simp add: take_bit_eq_mask)
    then have "bit x 63 = bit (take_bit 63 x) 63" by simp
    then show ?thesis by (simp add: bit_take_bit_iff)
  qed
  show "drop_bit 1 (push_bit 1 x OR (if f then 1 else 0)) = x"
  proof (rule bit_eqI)
    fix i assume "possible_bit TYPE(u64) i"
    then have "i < 64" by (simp add: possible_bit_word)
    then have "i = 63 \<or> Suc i < 64" by auto
    then show "bit (drop_bit 1 (push_bit 1 x OR (if f then 1 else 0))) i = bit x i"
      using hi by (auto simp add: bit_simps bit_double_iff mult.commute[of x 2])
  qed
  show "((push_bit 1 x OR (if f then 1 else 0)) AND 1 \<noteq> 0) = f"
    unfolding and1_bit0 by (simp add: bit_simps bit_double_iff mult.commute[of x 2])
qed

text \<open>
  C10. \<open>parseVarInt\<close> does not enforce the minimal length: for every 64-bit value \<open>x\<close> and
  every length category \<open>m\<close> from the minimal one for \<open>x\<close> up to nine bytes, the \<open>m\<close>-byte
  little-endian encoding of \<open>x\<close> with the length prefix of that category decodes to \<open>x\<close>
  and leaves the reader just behind the encoding; no such encoding is rejected.
\<close>

theorem parseVarInt_accepts_every_category:
  assumes "minCategory x \<le> m" and "m \<le> 9"
  shows "parseVarInt (encodeVarIntLen m x @ rest) = Inr (x, rest)"
  using assms by (rule rt_any)

theorem parseVarInt_accepts_every_category_witness:
  "minCategory 0x100 \<le> 5 \<and> (5::nat) \<le> 9
   \<and> parseVarInt (encodeVarIntLen 5 0x100 @ [7]) = Inr (0x100, [7])
   \<and> encodeVarIntLen 5 0x100 \<noteq> encodeVarInt 0x100"
proof -
  have a: "minCategory 0x100 \<le> 5" by (simp add: minCategory_def)
  have b: "(5::nat) \<le> 9" by simp
  have "length (encodeVarIntLen 5 0x100) \<noteq> length (encodeVarInt 0x100)"
    by (simp add: encodeVarInt_def minCategory_def length_enc)
  then have "encodeVarIntLen 5 0x100 \<noteq> encodeVarInt 0x100" by metis
  then show ?thesis
    using a b parseVarInt_accepts_every_category[OF a b, of "[7]"] by simp
qed

text \<open>
  C2, as the code has it. For every 64-bit \<open>x\<close>, \<open>parseVarInt\<close> applied to the
  minimal-length encoding of \<open>x\<close> yields \<open>x\<close>, and that encoding has the length of the
  minimal category (1 byte below \<open>2^7\<close>, ..., 9 bytes from \<open>2^56\<close>). For every
  \<open>x < 2^63\<close> and every flag, \<open>parseVarIntWithFlag\<close> applied to the encoding of
  \<open>(x << 1) | flag\<close> yields \<open>(x, flag)\<close>; the bound is needed because the shifted value
  is itself a 64-bit integer.
\<close>

theorem varint_roundtrip:
  "parseVarInt (encodeVarInt x @ rest) = Inr (x, rest)
   \<and> length (encodeVarInt x) = minCategory x
   \<and> (x < 2 ^ 63 \<longrightarrow>
        parseVarIntWithFlag (encodeVarIntWithFlag x flag @ rest) = Inr ((x, flag), rest))"
proof -
  have p: "parseVarInt (encodeVarInt y @ rest) = Inr (y, rest)" for y
    unfolding encodeVarInt_def by (rule rt_any) (simp_all add: minCategory_range)
  have l: "length (encodeVarInt x) = minCategory x"
    unfolding encodeVarInt_def by (rule length_enc) (rule minCategory_range)+
  have "parseVarIntWithFlag (encodeVarIntWithFlag x flag @ rest) = Inr ((x, flag), rest)"
    if "x < 2 ^ 63"
    using flag_bits[OF that, of flag]
    by (simp add: parseVarIntWithFlag_def encodeVarIntWithFlag_def p)
  with p l show ?thesis by blast
qed

theorem varint_roundtrip_witness:
  "parseVarInt (encodeVarInt 0x2A @ []) = Inr (0x2A, [])
   \<and> length (encodeVarInt 0x2A) = minCategory 0x2A
   \<and> (0x2A::u64) < 2 ^ 63
   \<and> parseVarIntWithFlag (encodeVarIntWithFlag 0x2A True @ []) = Inr ((0x2A, True), [])"
proof -
  have "(0x2A::u64) < 2 ^ 63" by simp
  then show ?thesis
    using varint_roundtrip[of "0x2A" "[]" True] by blast
qed

text \<open>
  C2 as stated fails for the flagged form at \<open>x = 2^63\<close>: \<open>x << 1\<close> wraps to \<open>0\<close> in 64
  bits, so the value read back is \<open>0\<close>.
\<close>

theorem varint_flag_counterexample:
  "parseVarIntWithFlag (encodeVarIntWithFlag (2 ^ 63) False @ [])
     = Inr ((0, False), [])
   \<and> parseVarIntWithFlag (encodeVarIntWithFlag (2 ^ 63) False @ [])
     \<noteq> Inr ((2 ^ 63, False), [])"
proof -
  have "push_bit 1 (2 ^ 63 :: u64) = 0"
    by (simp add: push_bit_eq_mult)
  then have e: "encodeVarIntWithFlag (2 ^ 63) False = encodeVarInt 0"
    by (simp only: encodeVarIntWithFlag_def if_False or.right_neutral)
  have pv: "parseVarInt (encodeVarInt 0 @ []) = Inr (0, [])"
    unfolding encodeVarInt_def by (rule rt_any) (simp_all add: minCategory_range)
  have r: "parseVarIntWithFlag (encodeVarIntWithFlag (2 ^ 63) False @ []) = Inr ((0, False), [])"
    unfolding parseVarIntWithFlag_def e pv by simp
  show ?thesis unfolding r by simp
qed

section \<open>Properties of the string section\<close>

lemma loop_success:
  "parseStringSizes n e t acc r = Inr (strs, t', r') \<Longrightarrow>
   \<exists>sizes. parseVarInts n r = Inr (sizes, r') \<and> sizesFit e sizes
     \<and> t' = t + sizeSum sizes \<and> strs = rev (refsInReadOrder e sizes) @ acc"
proof (induction n arbitrary: e t acc r)
  case 0
  then show ?case by (simp add: sizeSum_def)
next
  case (Suc n)
  from Suc.prems obtain s r1 where pv: "parseVarInt r = Inr (s, r1)"
    by (auto split: sum.splits)
  with Suc.prems have fit: "\<not> e < unat s"
    by (auto split: if_splits)
  with Suc.prems pv have rec: "parseStringSizes n (e - unat s) (t + unat s)
      (\<lparr>str_offset = e - unat s, str_size = s - 1\<rparr> # acc) r1 = Inr (strs, t', r')"
    by (simp add: Let_def)
  from Suc.IH[OF rec] obtain sizes where
    a: "parseVarInts n r1 = Inr (sizes, r')" and b: "sizesFit (e - unat s) sizes"
    and c: "t' = t + unat s + sizeSum sizes"
    and d: "strs = rev (refsInReadOrder (e - unat s) sizes) @ \<lparr>str_offset = e - unat s, str_size = s - 1\<rparr> # acc"
    by auto
  show ?case
    by (rule exI[of _ "s # sizes"]) (use pv a b c d fit in \<open>simp add: sizeSum_def\<close>)
qed

lemma loop_complete:
  "parseVarInts n r = Inr (sizes, r') \<Longrightarrow> sizesFit e sizes \<Longrightarrow>
   parseStringSizes n e t acc r = Inr (rev (refsInReadOrder e sizes) @ acc, t + sizeSum sizes, r')"
proof (induction n arbitrary: e t acc r sizes)
  case 0
  then show ?case by (simp add: sizeSum_def)
next
  case (Suc n)
  from Suc.prems(1) obtain s r1 ss where pv: "parseVarInt r = Inr (s, r1)"
    and rest: "parseVarInts n r1 = Inr (ss, r')" and sz: "sizes = s # ss"
    by (auto split: sum.splits)
  from Suc.prems(2) sz have fit: "unat s \<le> e" "sizesFit (e - unat s) ss" by auto
  show ?case
    using Suc.IH[OF rest fit(2)] pv fit(1) sz by (simp add: sizeSum_def Let_def)
qed

lemma refs_length [simp]: "length (refsInReadOrder e ss) = length ss"
  by (induction ss arbitrary: e) auto

lemma refs_nth:
  "j < length ss \<Longrightarrow>
   refsInReadOrder e ss ! j =
     \<lparr>str_offset = e - sizeSum (take (Suc j) ss), str_size = ss ! j - 1\<rparr>"
proof (induction ss arbitrary: e j)
  case Nil
  then show ?case by simp
next
  case (Cons s ss)
  show ?case
  proof (cases j)
    case 0
    then show ?thesis by (simp add: sizeSum_def)
  next
    case (Suc j')
    with Cons.prems have "j' < length ss" by simp
    from Cons.IH[OF this, of "e - unat s"] Suc show ?thesis
      by (simp add: sizeSum_def)
  qed
qed

lemma parseVarInts_length: "parseVarInts n r = Inr (ss, r') \<Longrightarrow> length ss = n"
  by (induction n arbitrary: r ss) (auto split: sum.splits)

lemma parseVarInt_suffix:
  assumes "parseVarInt r = Inr (v, r')"
  shows "\<exists>k. 0 < k \<and> k \<le> length r \<and> r' = drop k r"
proof -
  from assms obtain b r1 where r: "r = b # r1"
    by (cases r) (auto simp add: parseVarInt_def parseByte_def)
  have pb: "parseBytes n r1 = Inr (bs, r2) \<Longrightarrow> n \<le> length r1 \<and> r2 = drop n r1" for n bs r2
    by (auto simp add: parseBytes_def size_r_def split: if_splits)
  from assms r have "\<exists>n. n \<le> length r1 \<and> r' = drop n r1"
    apply (simp add: parseVarInt_def parseByte_def Let_def parseMultiByteVarInt_def split: if_splits sum.splits)
    using pb by fastforce+
  then obtain n where "n \<le> length r1" "r' = drop n r1" by blast
  then show ?thesis using r by (intro exI[of _ "Suc n"]) simp
qed

lemma parseVarInts_suffix:
  "parseVarInts n r = Inr (vs, r') \<Longrightarrow> \<exists>k. k \<le> length r \<and> r' = drop k r"
proof (induction n arbitrary: r vs)
  case 0
  then show ?case by (intro exI[of _ 0]) simp
next
  case (Suc n)
  from Suc.prems obtain v r1 vs' where a: "parseVarInt r = Inr (v, r1)"
    and b: "parseVarInts n r1 = Inr (vs', r')"
    by (auto split: sum.splits)
  from parseVarInt_suffix[OF a] obtain k where k: "k \<le> length r" "r1 = drop k r" by blast
  from Suc.IH[OF b] obtain k' where k': "k' \<le> length r1" "r' = drop k' r1" by blast
  show ?case using k k' by (intro exI[of _ "k' + k"]) (simp add: add.commute)
qed

lemma loop_prefix:
  "parseVarInts j r = Inr (ss, rj) \<Longrightarrow> sizesFit e ss \<Longrightarrow>
   parseStringSizes (j + k) e t acc r =
     parseStringSizes k (e - sizeSum ss) (t + sizeSum ss) (rev (refsInReadOrder e ss) @ acc) rj"
proof (induction j arbitrary: e t acc r ss)
  case 0
  then show ?case by (simp add: sizeSum_def)
next
  case (Suc j)
  from Suc.prems(1) obtain s r1 ss' where pv: "parseVarInt r = Inr (s, r1)"
    and rest: "parseVarInts j r1 = Inr (ss', rj)" and sz: "ss = s # ss'"
    by (auto split: sum.splits)
  from Suc.prems(2) sz have fit: "unat s \<le> e" "sizesFit (e - unat s) ss'" by auto
  show ?case
    using Suc.IH[OF rest fit(2)] pv fit(1) sz by (simp add: sizeSum_def Let_def add.assoc)
qed


lemma section_result:
  assumes hdr: "parseVarInt sectionData = Inr (numStrings, r0)"
    and sizes: "parseVarInts (unat numStrings) r0 = Inr (sizes, r1)"
    and fit: "sizesFit (length sectionData) sizes"
  shows "parseStringSection sectionData =
           (if length r1 \<noteq> sizeSum sizes then Inl StringTrailingData
            else Inr (rev (refsInReadOrder (length sectionData) sizes)))"
  using loop_complete[OF sizes fit, of 0 "[]"] hdr
  by (simp add: parseStringSection_def size_r_def)

lemma sizeSum_take_le: "sizeSum (take j ss) \<le> sizeSum ss"
proof -
  have "sizeSum ss = sizeSum (take j ss) + sizeSum (drop j ss)"
    unfolding sizeSum_def by (metis append_take_drop_id map_append sum_list_append)
  then show ?thesis by simp
qed

lemma sizesFit_sum: "sizesFit e ss \<Longrightarrow> sizeSum ss \<le> e"
proof (induction ss arbitrary: e)
  case Nil
  then show ?case by (simp add: sizeSum_def)
next
  case (Cons s ss)
  then have "unat s \<le> e" and "sizeSum ss \<le> e - unat s" by auto
  then show ?case by (simp add: sizeSum_def)
qed

lemma sizesFit_nth:
  "sizesFit e ss \<Longrightarrow> j < length ss \<Longrightarrow> sizeSum (take j ss) + unat (ss ! j) \<le> e"
proof -
  assume a: "sizesFit e ss" "j < length ss"
  have "take (Suc j) ss = take j ss @ [ss ! j]" using a(2) by (simp add: take_Suc_conv_app_nth)
  then have "sizeSum (take (Suc j) ss) = sizeSum (take j ss) + unat (ss ! j)"
    by (simp add: sizeSum_def)
  with sizeSum_take_le[of "Suc j" ss] sizesFit_sum[OF a(1)] show ?thesis by simp
qed

lemma string_section_success:
  assumes hdr: "parseVarInt sectionData = Inr (numStrings, r0)"
   and a: "parseVarInts (unat numStrings) r0 = Inr (sizes, r1)
            \<and> sizesFit (length sectionData) sizes \<and> sizeSum sizes = length r1"
  shows "\<exists>strs. parseStringSection sectionData = Inr strs
               \<and> length strs = unat numStrings
               \<and> drop (length sectionData - sizeSum sizes) sectionData = r1
               \<and> (\<forall>j < unat numStrings.
                     strs ! (unat numStrings - 1 - j) =
                       \<lparr>str_offset = length sectionData - sizeSum (take (Suc j) sizes),
                        str_size = sizes ! j - 1\<rparr>
                     \<and> (sizes ! j \<noteq> 0 \<longrightarrow> unat (sizes ! j - 1) + 1 = unat (sizes ! j)))"
proof -
  let ?n = "unat numStrings" and ?len = "length sectionData"
  let ?strs = "rev (refsInReadOrder ?len sizes)"
  have n: "length sizes = ?n" using a parseVarInts_length by blast
  have res: "parseStringSection sectionData = Inr ?strs"
    using section_result[OF hdr] a by simp
  have suffix: "drop (?len - sizeSum sizes) sectionData = r1"
  proof -
    from parseVarInt_suffix[OF hdr] obtain k where k: "k \<le> ?len" "r0 = drop k sectionData" by blast
    from a parseVarInts_suffix obtain k' where k': "k' \<le> length r0" "r1 = drop k' r0" by blast
    have r1: "r1 = drop (k' + k) sectionData" using k k' by simp
    have "length r1 = ?len - (k' + k)" unfolding r1 by simp
    moreover have "k' + k \<le> ?len" using k k' by simp
    ultimately have "?len - sizeSum sizes = k' + k" using a by simp
    then show ?thesis using r1 by simp
  qed
  have nth: "?strs ! (?n - 1 - j) =
        \<lparr>str_offset = ?len - sizeSum (take (Suc j) sizes), str_size = sizes ! j - 1\<rparr>
      \<and> (sizes ! j \<noteq> 0 \<longrightarrow> unat (sizes ! j - 1) + 1 = unat (sizes ! j))" if j: "j < ?n" for j
  proof -
    have a1: "?strs ! (?n - 1 - j) = refsInReadOrder ?len sizes ! j"
      using j n by (simp add: rev_nth)
    have a2: "refsInReadOrder ?len sizes ! j =
        \<lparr>str_offset = ?len - sizeSum (take (Suc j) sizes), str_size = sizes ! j - 1\<rparr>"
      by (rule refs_nth) (use j n in simp)
    have a3: "unat (sizes ! j - 1) + 1 = unat (sizes ! j)" if "sizes ! j \<noteq> 0"
      using that unat_gt_0[of "sizes ! j"] by (simp add: unat_minus_one)
    show ?thesis unfolding a1 a2 using a3 by blast
  qed
  show ?thesis
  proof (intro exI[of _ ?strs] conjI)
    show "parseStringSection sectionData = Inr ?strs" by (rule res)
    show "length ?strs = ?n" using n by simp
    show "drop (?len - sizeSum sizes) sectionData = r1" by (rule suffix)
    show "\<forall>j < ?n. ?strs ! (?n - 1 - j) =
                       \<lparr>str_offset = ?len - sizeSum (take (Suc j) sizes),
                        str_size = sizes ! j - 1\<rparr>
                     \<and> (sizes ! j \<noteq> 0 \<longrightarrow> unat (sizes ! j - 1) + 1 = unat (sizes ! j))"
      using nth by blast
  qed
qed
lemma string_section_exceeds:
  assumes hdr: "parseVarInt sectionData = Inr (numStrings, r0)"
   and j: "j < unat numStrings" and pv: "parseVarInts j r0 = Inr (ss, rj)"
   and fit: "sizesFit (length sectionData) ss" and pv2: "parseVarInt rj = Inr (s, r')"
   and lt: "length sectionData - sizeSum ss < unat s"
  shows "parseStringSection sectionData = Inl StringSizeExceeds"
proof -
  from less_imp_Suc_add[OF j] obtain k where k: "unat numStrings = j + Suc k"
    by auto
  have "parseStringSizes (j + Suc k) (length sectionData) 0 [] r0 =
      parseStringSizes (Suc k) (length sectionData - sizeSum ss) (0 + sizeSum ss) (rev (refsInReadOrder (length sectionData) ss) @ []) rj"
    by (rule loop_prefix[OF pv fit])
  also have "\<dots> = Inl StringSizeExceeds"
    by (simp add: pv2 lt)
  finally have l: "parseStringSizes (j + Suc k) (length sectionData) 0 [] r0 = Inl StringSizeExceeds" .
  have "parseStringSizes (unat numStrings) (length sectionData) 0 [] r0 = Inl StringSizeExceeds"
    unfolding k by (rule l)
  then show ?thesis
    by (simp add: parseStringSection_def hdr)
qed
lemma string_section_trailing:
  assumes hdr: "parseVarInt sectionData = Inr (numStrings, r0)"
   and a: "parseVarInts (unat numStrings) r0 = Inr (sizes, r1)
            \<and> sizesFit (length sectionData) sizes \<and> sizeSum sizes \<noteq> length r1"
  shows "parseStringSection sectionData = Inl StringTrailingData"
    using section_result[OF hdr, of sizes r1] a by auto

lemma string_section_only_if:
  assumes hdr: "parseVarInt sectionData = Inr (numStrings, r0)"
   and a: "parseStringSection sectionData = Inr strs"
  shows "\<exists>sizes r1. parseVarInts (unat numStrings) r0 = Inr (sizes, r1)
               \<and> sizesFit (length sectionData) sizes \<and> sizeSum sizes = length r1"
proof -
  from a obtain t' r' where l: "parseStringSizes (unat numStrings) (length sectionData) 0 [] r0 = Inr (strs, t', r')"
    and t: "size_r r' = t'"
    using hdr by (auto simp add: parseStringSection_def split: sum.splits if_splits)
  from loop_success[OF l] t
  show ?thesis
    by (auto simp add: size_r_def)
qed

text \<open>
  C7. Let a string section start with the count \<open>N\<close> followed by \<open>N\<close> sizes. The reader
  fills the string table from its last index to its first while it reads the sizes in
  order, subtracting each size from an offset that starts at the section length: the
  \<open>j\<close>-th size read belongs to index \<open>N - 1 - j\<close>, whose slice starts at the section length
  minus the sum of the first \<open>j + 1\<close> sizes, so the last size belongs to index \<open>0\<close>, at offset
  \<open>0\<close> of the string data (the bytes left after the sizes). The slice is one byte shorter
  than the stored size. Parsing fails with "string size exceeds the available data size"
  at the first size larger than the data left before it, with "unexpected trailing data
  between the offsets for strings and their data" when the sizes fit but do not sum to the
  remaining data, and succeeds in no other case.
\<close>

theorem string_section_layout:
  assumes hdr: "parseVarInt sectionData = Inr (numStrings, r0)"
  shows "(\<forall>sizes r1.
            parseVarInts (unat numStrings) r0 = Inr (sizes, r1)
            \<and> sizesFit (length sectionData) sizes \<and> sizeSum sizes = length r1 \<longrightarrow>
            (\<exists>strs. parseStringSection sectionData = Inr strs
               \<and> length strs = unat numStrings
               \<and> drop (length sectionData - sizeSum sizes) sectionData = r1
               \<and> (\<forall>j < unat numStrings.
                     strs ! (unat numStrings - 1 - j) =
                       \<lparr>str_offset = length sectionData - sizeSum (take (Suc j) sizes),
                        str_size = sizes ! j - 1\<rparr>
                     \<and> (sizes ! j \<noteq> 0 \<longrightarrow> unat (sizes ! j - 1) + 1 = unat (sizes ! j)))))
       \<and> (\<forall>j ss rj s r'.
            j < unat numStrings \<and> parseVarInts j r0 = Inr (ss, rj)
            \<and> sizesFit (length sectionData) ss \<and> parseVarInt rj = Inr (s, r')
            \<and> length sectionData - sizeSum ss < unat s \<longrightarrow>
            parseStringSection sectionData = Inl StringSizeExceeds)
       \<and> (\<forall>sizes r1.
            parseVarInts (unat numStrings) r0 = Inr (sizes, r1)
            \<and> sizesFit (length sectionData) sizes \<and> sizeSum sizes \<noteq> length r1 \<longrightarrow>
            parseStringSection sectionData = Inl StringTrailingData)
       \<and> (\<forall>strs. parseStringSection sectionData = Inr strs \<longrightarrow>
            (\<exists>sizes r1. parseVarInts (unat numStrings) r0 = Inr (sizes, r1)
               \<and> sizesFit (length sectionData) sizes \<and> sizeSum sizes = length r1))"
proof (intro conjI allI impI)
  fix sizes r1
  assume "parseVarInts (unat numStrings) r0 = Inr (sizes, r1)
            \<and> sizesFit (length sectionData) sizes \<and> sizeSum sizes = length r1"
  then show "\<exists>strs. parseStringSection sectionData = Inr strs
               \<and> length strs = unat numStrings
               \<and> drop (length sectionData - sizeSum sizes) sectionData = r1
               \<and> (\<forall>j < unat numStrings.
                     strs ! (unat numStrings - 1 - j) =
                       \<lparr>str_offset = length sectionData - sizeSum (take (Suc j) sizes),
                        str_size = sizes ! j - 1\<rparr>
                     \<and> (sizes ! j \<noteq> 0 \<longrightarrow> unat (sizes ! j - 1) + 1 = unat (sizes ! j)))"
    by (rule string_section_success[OF hdr])
next
  fix j ss rj s r'
  assume a: "j < unat numStrings \<and> parseVarInts j r0 = Inr (ss, rj)
            \<and> sizesFit (length sectionData) ss \<and> parseVarInt rj = Inr (s, r')
            \<and> length sectionData - sizeSum ss < unat s"
  show "parseStringSection sectionData = Inl StringSizeExceeds"
    by (rule string_section_exceeds[OF hdr, of j ss rj s r']) (simp_all only: a)
next
  fix sizes r1
  assume "parseVarInts (unat numStrings) r0 = Inr (sizes, r1)
            \<and> sizesFit (length sectionData) sizes \<and> sizeSum sizes \<noteq> length r1"
  then show "parseStringSection sectionData = Inl StringTrailingData"
    by (rule string_section_trailing[OF hdr])
next
  fix strs
  assume "parseStringSection sectionData = Inr strs"
  then show "\<exists>sizes r1. parseVarInts (unat numStrings) r0 = Inr (sizes, r1)
               \<and> sizesFit (length sectionData) sizes \<and> sizeSum sizes = length r1"
    by (rule string_section_only_if[OF hdr])
qed

text \<open>
  C9. When the size read for a table entry is \<open>0\<close>, the loop does not report "string size
  exceeds the available data size" for that entry: it goes on to the next entry, having
  stored a slice whose length is \<open>0 - 1\<close> in 64-bit unsigned arithmetic, that is
  \<open>2^64 - 1\<close>.
\<close>

theorem zero_string_size_wraps:
  assumes "parseVarInt r = Inr (0, r')"
  shows "parseStringSizes (Suc n) stringDataEndOffset totalStringDataSize acc r =
           parseStringSizes n stringDataEndOffset totalStringDataSize
             (\<lparr>str_offset = stringDataEndOffset, str_size = 0 - 1\<rparr> # acc) r'
         \<and> unat (0 - 1 :: u64) = 2 ^ 64 - 1"
  using assms by (simp add: unsigned_minus_1_eq_mask mask_eq_exp_minus_1)

theorem zero_string_size_wraps_witness:
  "parseVarInt [0x01] = Inr (0, [])
   \<and> parseStringSizes (Suc 0) 2 0 [] [0x01] =
         Inr ([\<lparr>str_offset = 2, str_size = 0xFFFFFFFFFFFFFFFF\<rparr>], 0, [])
   \<and> parseStringSection [0x03, 0x01] =
         Inr [\<lparr>str_offset = 2, str_size = 0xFFFFFFFFFFFFFFFF\<rparr>]"
proof -
  have h: "parseVarInt [0x01] = Inr (0, [])" by code_simp
  have "parseStringSizes (Suc 0) 2 0 [] [0x01] =
         Inr ([\<lparr>str_offset = 2, str_size = 0xFFFFFFFFFFFFFFFF\<rparr>], 0, [])"
    using zero_string_size_wraps[OF h, of 0 2 0 "[]"] by simp
  moreover have "parseStringSection [0x03, 0x01] =
         Inr [\<lparr>str_offset = 2, str_size = 0xFFFFFFFFFFFFFFFF\<rparr>]"
    by code_simp
  ultimately show ?thesis using h by simp
qed

theorem string_section_layout_witness:
  "parseVarInt [0x05, 0x05, 0x07, 0x61, 0x62, 0, 0x63, 0]
      = Inr (2, [0x05, 0x07, 0x61, 0x62, 0, 0x63, 0])
   \<and> parseVarInts 2 [0x05, 0x07, 0x61, 0x62, 0, 0x63, 0]
      = Inr ([2, 3], [0x61, 0x62, 0, 0x63, 0])
   \<and> (\<exists>strs. parseStringSection [0x05, 0x05, 0x07, 0x61, 0x62, 0, 0x63, 0] = Inr strs
         \<and> strs ! 1 = \<lparr>str_offset = 6, str_size = 1\<rparr>
         \<and> strs ! 0 = \<lparr>str_offset = 3, str_size = 2\<rparr>)
   \<and> parseStringSection [0x05, 0x05, 0x21] = Inl StringSizeExceeds
   \<and> parseStringSection [0x05, 0x05, 0x07, 0x61, 0x62, 0, 0x63] = Inl StringTrailingData"
proof -
  let ?sec = "[0x05, 0x05, 0x07, 0x61, 0x62, 0, 0x63, 0] :: byte list"
  let ?r0 = "[0x05, 0x07, 0x61, 0x62, 0, 0x63, 0] :: byte list"
  let ?r1 = "[0x61, 0x62, 0, 0x63, 0] :: byte list"
  have hdr: "parseVarInt ?sec = Inr (2, ?r0)" by code_simp
  have sizes: "parseVarInts (unat (2::u64)) ?r0 = Inr ([2, 3], ?r1)" by code_simp
  have fit: "sizesFit (length ?sec) [2, 3]" by (simp add: sizeSum_def)
  have sum: "sizeSum [2, 3] = length ?r1" by (simp add: sizeSum_def)
  note p1 = string_section_layout[OF hdr, THEN conjunct1, rule_format,
      OF conjI[OF sizes conjI[OF fit sum]]]
  then obtain strs where s: "parseStringSection ?sec = Inr strs"
    and nth: "\<forall>j < unat (2::u64). strs ! (unat (2::u64) - 1 - j) =
                       \<lparr>str_offset = length ?sec - sizeSum (take (Suc j) [2, 3]),
                        str_size = [2, 3] ! j - 1\<rparr>"
    by (elim exE conjE) blast
  have n0: "strs ! 1 = \<lparr>str_offset = 6, str_size = 1\<rparr>"
    using nth[rule_format, of 0] by (simp add: sizeSum_def)
  have n1: "strs ! 0 = \<lparr>str_offset = 3, str_size = 2\<rparr>"
    using nth[rule_format, of 1] by (simp add: sizeSum_def)
  have hdr2: "parseVarInt [0x05, 0x05, 0x21] = Inr (2, [0x05, 0x21])" by code_simp
  have e1: "parseStringSection [0x05, 0x05, 0x21] = Inl StringSizeExceeds"
  proof -
    have a: "parseVarInts 1 [0x05, 0x21] = Inr ([2], [0x21])" by code_simp
    have b: "parseVarInt [0x21] = Inr (16, [])" by code_simp
    have c: "(1::nat) < unat (2::u64) \<and> parseVarInts 1 [0x05, 0x21] = Inr ([2], [0x21])
            \<and> sizesFit (length [0x05, 0x05, 0x21 :: byte]) [2] \<and> parseVarInt [0x21] = Inr (16, [])
            \<and> length [0x05, 0x05, 0x21 :: byte] - sizeSum [2] < unat (16 :: u64)"
      using a b by (simp add: sizeSum_def)
    show ?thesis
      by (rule string_section_layout[OF hdr2, THEN conjunct2, THEN conjunct1, rule_format, OF c])
  qed
  have hdr3: "parseVarInt [0x05, 0x05, 0x07, 0x61, 0x62, 0, 0x63]
      = Inr (2, [0x05, 0x07, 0x61, 0x62, 0, 0x63])" by code_simp
  have e2: "parseStringSection [0x05, 0x05, 0x07, 0x61, 0x62, 0, 0x63] = Inl StringTrailingData"
  proof -
    have a: "parseVarInts (unat (2::u64)) [0x05, 0x07, 0x61, 0x62, 0, 0x63]
        = Inr ([2, 3], [0x61, 0x62, 0, 0x63])" by code_simp
    have c: "parseVarInts (unat (2::u64)) [0x05, 0x07, 0x61, 0x62, 0, 0x63]
        = Inr ([2, 3], [0x61, 0x62, 0, 0x63])
        \<and> sizesFit (length [0x05, 0x05, 0x07, 0x61, 0x62, 0, 0x63 :: byte]) [2, 3]
        \<and> sizeSum [2, 3] \<noteq> length [0x61, 0x62, 0, 0x63 :: byte]"
      using a by (simp add: sizeSum_def)
    show ?thesis
      by (rule string_section_layout[OF hdr3, THEN conjunct2, THEN conjunct2, THEN conjunct1,
            rule_format, OF c])
  qed
  have sizes': "parseVarInts 2 ?r0 = Inr ([2, 3], ?r1)" using sizes by simp
  show ?thesis using hdr sizes' s n0 n1 e1 e2 by blast
qed

section \<open>What the reader leaves alone\<close>

lemma keepsD: "keeps R f \<Longrightarrow> f s = (r, s') \<Longrightarrow> R s s'"
  by (simp add: keeps_def)

lemma framed_refl: "framed R \<Longrightarrow> R s s"
  by (simp add: framed_def)

lemma framed_trans: "framed R \<Longrightarrow> R a b \<Longrightarrow> R b c \<Longrightarrow> R a c"
  unfolding framed_def by blast

lemma framed_same: "framed R \<Longrightarrow> protected s' = protected s \<Longrightarrow> R s s'"
  by (simp add: framed_def)

lemma keeps_ret: "framed R \<Longrightarrow> keeps R (ret x)"
  by (simp add: keeps_def ret_def framed_refl)

lemma keeps_gets: "framed R \<Longrightarrow> keeps R (gets f)"
  by (simp add: keeps_def gets_def framed_refl)

lemma keeps_emitError: "framed R \<Longrightarrow> keeps R (emitError d)"
  by (simp add: keeps_def emitError_def framed_refl)

lemma keeps_crash: "framed R \<Longrightarrow> keeps R crash"
  by (simp add: keeps_def crash_def framed_refl)

lemma keeps_modify: "framed R \<Longrightarrow> (\<And>s. protected (g s) = protected s) \<Longrightarrow> keeps R (modify g)"
  by (simp add: keeps_def modify_def framed_same)

lemma keeps_withReader:
  assumes R: "framed R"
  shows "keeps R (withReader p)"
proof -
  have "R s (s\<lparr>rd := r\<rparr>)" for s r
    by (rule framed_same[OF R]) (simp add: protected_def)
  then show ?thesis
    by (auto simp add: keeps_def withReader_def framed_refl[OF R] split: sum.splits)
qed

lemma keeps_bind:
  "framed R \<Longrightarrow> keeps R m \<Longrightarrow> (\<And>x. keeps R (f x)) \<Longrightarrow> keeps R (bind m f)"
  unfolding keeps_def bind_def
  by (auto split: prod.splits res.splits) (meson framed_trans)

lemmas keeps_intros =
  keeps_ret keeps_gets keeps_emitError keeps_crash keeps_withReader keeps_bind

lemma keeps_repeatM:
  assumes R: "framed R" and f: "\<And>a. keeps R (f a)"
  shows "keeps R (repeatM n f acc)"
  by (induction n arbitrary: acc) (auto intro!: keeps_intros[OF R] f)

lemma keeps_collectM:
  assumes R: "framed R" and f: "keeps R f"
  shows "keeps R (collectM n f)"
  by (induction n) (auto intro!: keeps_intros[OF R] f)

lemma keeps_parseEntry:
  assumes R: "framed R"
  shows "keeps R (parseEntry n str)"
  unfolding parseEntry_def by (auto intro!: keeps_intros[OF R])

lemma keeps_parseSharedString:
  assumes R: "framed R"
  shows "keeps R parseSharedString"
  unfolding parseSharedString_def by (auto intro!: keeps_intros[OF R] keeps_parseEntry[OF R])

lemma keeps_resolveEntry:
  assumes R: "framed R" and set: "\<And>es s. protected (setE es s) = protected s"
  shows "keeps R (resolveEntry getE setE p str i)"
  unfolding resolveEntry_def
  by (auto intro!: keeps_intros[OF R] keeps_modify[OF R] set split: nogrow_splits)

lemma keeps_parseAttribute:
  assumes R: "framed R"
  shows "keeps R (parseAttribute h)" "keeps R (parseType h)"
    "keeps R (parseLocationAttr h)" "keeps R (parseDictionaryAttr h)"
  unfolding parseAttribute_def parseType_def resolveAttribute_def resolveType_def
    parseLocationAttr_def parseDictionaryAttr_def
  by (auto intro!: keeps_intros[OF R] keeps_resolveEntry[OF R] simp add: protected_def)

lemma keeps_host_ir:
  assumes R: "framed R"
  shows "keeps R (createOperation st)" "keeps R (createRegions n)" "keeps R createBlock"
    "keeps R (push_back_op b op)" "keeps R (replaceAllUsesWith ov nv)"
    "keeps R (updateTopScope f)"
  unfolding createOperation_def createRegions_def createBlock_def push_back_op_def
    replaceAllUsesWith_def updateTopScope_def
  by (auto intro!: keeps_intros[OF R] keeps_modify[OF R] simp add: protected_def)

lemma keeps_createForwardRef:
  assumes R: "framed R"
  shows "keeps R createForwardRef"
  unfolding createForwardRef_def
  by (auto intro!: keeps_intros[OF R] keeps_modify[OF R] keeps_host_ir[OF R]
      simp add: protected_def)

lemma keeps_parseOperand:
  assumes R: "framed R"
  shows "keeps R parseOperand"
  unfolding parseOperand_def
  by (auto intro!: keeps_intros[OF R] keeps_host_ir[OF R] keeps_parseEntry[OF R]
        keeps_createForwardRef[OF R]
      split: nogrow_splits)

lemma keeps_defineValue:
  assumes R: "framed R"
  shows "keeps R (defineValue v)"
  unfolding defineValue_def
  by (auto intro!: keeps_intros[OF R] keeps_modify[OF R] keeps_host_ir[OF R]
      simp add: protected_def split: nogrow_splits)

lemma keeps_defineValuesLoop:
  assumes R: "framed R"
  shows "keeps R (defineValuesLoop vs)"
  by (induction vs) (auto intro!: keeps_intros[OF R] keeps_defineValue[OF R])

lemma keeps_defineValues:
  assumes R: "framed R"
  shows "keeps R (defineValues vs)"
  unfolding defineValues_def
  by (auto intro!: keeps_intros[OF R] keeps_defineValuesLoop[OF R]
      simp add: Let_def split: nogrow_splits)

lemma keeps_scopes:
  assumes R: "framed R"
  shows "keeps R (pushTopScope rs)" "keeps R (popTopScope rs)"
  unfolding pushTopScope_def popTopScope_def
  by (auto intro!: keeps_intros[OF R] keeps_host_ir[OF R] split: nogrow_splits)

lemma keeps_curBlockId:
  assumes R: "framed R"
  shows "keeps R (curBlockId rs)"
  unfolding curBlockId_def by (auto intro!: keeps_intros[OF R] split: nogrow_splits)

lemma keeps_parseBlockArguments:
  assumes R: "framed R"
  shows "keeps R (parseBlockArguments h b)"
  unfolding parseBlockArguments_def
  by (auto intro!: keeps_intros[OF R] keeps_modify[OF R] keeps_collectM[OF R]
        keeps_parseAttribute[OF R] keeps_defineValues[OF R]
      simp add: protected_def)

lemma keeps_parseBlock:
  assumes R: "framed R"
  shows "keeps R (parseBlock h rs)"
  unfolding parseBlock_def
  by (auto intro!: keeps_intros[OF R] keeps_curBlockId[OF R]
        keeps_parseBlockArguments[OF R])

lemma keeps_createBlocks:
  assumes R: "framed R"
  shows "keeps R (createBlocks r n)"
  by (induction n)
     (auto intro!: keeps_intros[OF R] keeps_modify[OF R] keeps_host_ir[OF R]
      simp add: protected_def)

lemma keeps_parseRegion:
  assumes R: "framed R"
  shows "keeps R (parseRegion h rs)"
  unfolding parseRegion_def
  by (auto intro!: keeps_intros[OF R] keeps_createBlocks[OF R] keeps_scopes[OF R]
        keeps_parseBlock[OF R])

lemma keeps_parseOpWithoutRegions:
  assumes R: "framed R" and opName: "keeps R (parseOpName h)"
  shows "keeps R (parseOpWithoutRegions h rs)"
  unfolding parseOpWithoutRegions_def
  by (auto intro!: keeps_intros[OF R] keeps_collectM[OF R] keeps_parseAttribute[OF R]
        keeps_parseOperand[OF R] keeps_parseEntry[OF R] keeps_host_ir[OF R]
        keeps_curBlockId[OF R] keeps_defineValues[OF R] opName)

lemma keeps_parseOps:
  assumes R: "framed R" and opName: "keeps R (parseOpName h)"
  shows "keeps R (parseOps h rs)"
proof -
  note pw = keepsD[OF keeps_parseOpWithoutRegions[OF R opName]]
  have "R s s'" if "parseOps h rs s = (r, s')" for s r s'
    using that
  proof (induction rule: parseOps_induct)
    case (step rs s opf s1 res s')
    from pw[OF step(2)] step(5) show ?case by (rule framed_trans[OF R])
  qed (auto intro: framed_refl[OF R] pw)
  then show ?thesis by (simp add: keeps_def)
qed

lemma keeps_parseBlocks:
  assumes R: "framed R" and opName: "keeps R (parseOpName h)"
  shows "keeps R (parseBlocks h rs)"
proof -
  note pb = keepsD[OF keeps_parseBlock[OF R]]
  have "R s s'" if "parseBlocks h rs s = (r, s')" "keeps R (parseOpName h)" for s r s'
    using that
  proof (induction h rs s arbitrary: r s' rule: parseBlocks.induct)
    case (1 h readState s)
    note po = keepsD[OF keeps_parseOps[OF R "1.prems"(2)]]
    obtain r1 s1 where run: "parseOps h readState s = (r1, s1)"
      by (cases "parseOps h readState s") auto
    note R1 = po[OF run]
    show ?case
    proof (cases "\<exists>rs1 rg later i rs2 s2. r1 = Ok (rs1, None) \<and> regionRange rs1 = rg # later
        \<and> curBlock rs1 = Some i \<and> Suc i < length (regions s1 ! rg)
        \<and> parseBlock h (rs1\<lparr>curBlock := Some (Suc i)\<rparr>) s1 = (Ok rs2, s2)")
      case True
      then obtain rs1 rg later i rs2 s2 where a: "r1 = Ok (rs1, None)" "regionRange rs1 = rg # later"
        "curBlock rs1 = Some i" "Suc i < length (regions s1 ! rg)"
        "parseBlock h (rs1\<lparr>curBlock := Some (Suc i)\<rparr>) s1 = (Ok rs2, s2)" by blast
      with "1.prems"(1) run have rec: "parseBlocks h rs2 s2 = (r, s')"
        by (subst (asm) parseBlocks.simps) simp
      have "R s2 s'"
        by (rule "1.IH"[OF run[symmetric] a(1) refl refl refl a(2) a(3) _ _ a(5)[symmetric] refl rec "1.prems"(2)])
           (use a(4) in simp_all)
      with R1 pb[OF a(5)] show ?thesis by (meson framed_trans[OF R])
    next
      case False
      with "1.prems"(1) run have "s' = s1 \<or> (\<exists>x rs1. parseBlock h rs1 s1 = (x, s'))"
        by (subst (asm) parseBlocks.simps)
           (auto split: prod.splits res.splits option.splits list.splits if_splits)
      with R1 show ?thesis by (auto dest: pb intro: framed_trans[OF R])
    qed
  qed
  with opName show ?thesis by (simp add: keeps_def)
qed

lemma enterRegion_eq:
  "(if curBlock readState = None then parseRegion h readState s else (Ok readState, s))
   = enterRegion h readState s"
  by (simp add: enterRegion_def)

lemma parseRegionsLoop_unfold:
  "parseRegionsLoop h readState rest s =
     (case regionRange readState of
        [] \<Rightarrow>
          if isIsolatedFromAbove readState
          then (case valueScopes s of
                  [] \<Rightarrow> (Crash, s)
                | sc # outer \<Rightarrow> (Ok rest, s\<lparr>valueScopes := outer\<rparr>))
          else (Ok rest, s)
      | r # later \<Rightarrow>
          (case enterRegion h readState s of
             (Ok rs1, s1) \<Rightarrow>
               if curBlock readState = None \<and> regions s1 ! r = []
               then parseRegionsLoop h (rs1\<lparr>regionRange := later\<rparr>) rest s1
               else
                 (case parseBlocks h rs1 s1 of
                    (Ok (rs2, Some child), s2) \<Rightarrow>
                      (Ok (childState s2 child # rs2 # rest),
                           if snd child
                           then s2\<lparr>valueScopes := \<lparr>vs_values = [], nextValueIDs = []\<rparr> # valueScopes s2\<rparr>
                           else s2)
                  | (Ok (rs2, None), s2) \<Rightarrow>
                      (case popTopScope rs2 s2 of
                         (Ok u, s3) \<Rightarrow>
                           parseRegionsLoop h (rs2\<lparr>curBlock := None, regionRange := later\<rparr>) rest s3
                       | (Failed d, s3) \<Rightarrow> (Failed d, s3)
                       | (Crash, s3) \<Rightarrow> (Crash, s3))
                  | (Failed d, s2) \<Rightarrow> (Failed d, s2)
                  | (Crash, s2) \<Rightarrow> (Crash, s2))
           | (Failed d, s1) \<Rightarrow> (Failed d, s1)
           | (Crash, s1) \<Rightarrow> (Crash, s1)))"
  by (subst parseRegionsLoop.simps) (simp only: enterRegion_eq childState_def)

lemma keeps_enterRegion:
  assumes R: "framed R"
  shows "keeps R (enterRegion h rs)"
  using keepsD[OF keeps_parseRegion[OF R]]
  by (auto simp add: keeps_def enterRegion_def framed_refl[OF R] split: if_splits)

lemma keeps_parseRegionsLoop:
  assumes R: "framed R" and opName: "keeps R (parseOpName h)"
  shows "keeps R (parseRegionsLoop h rs rest)"
proof -
  note tr = framed_trans[OF R]
  note er = keepsD[OF keeps_enterRegion[OF R]]
  note pop = keepsD[OF keeps_scopes(2)[OF R]]
  have "R s s'" if "parseRegionsLoop h rs rest s = (r, s')" "keeps R (parseOpName h)" for s r s'
    using that
  proof (induction h rs rest s arbitrary: r s' rule: parseRegionsLoop.induct)
    case (1 h readState rest s)
    note pb = keepsD[OF keeps_parseBlocks[OF R "1.prems"(2)]]
    note run = "1.prems"(1)
    show ?case
    proof (cases "regionRange readState")
      case Nil
      with run have "protected s' = protected s"
        by (subst (asm) parseRegionsLoop.simps)
           (auto simp add: protected_def split: if_splits list.splits)
      then show ?thesis by (rule framed_same[OF R])
    next
      case (Cons rg later)
      obtain re s1 where e: "enterRegion h readState s = (re, s1)"
        by (cases "enterRegion h readState s") auto
      note R1 = er[OF e]
      show ?thesis
      proof (cases re)
        case (Ok rs1)
        show ?thesis
        proof (cases "curBlock readState = None \<and> regions s1 ! rg = []")
          case True
          with run Cons e Ok
          have rec: "parseRegionsLoop h (rs1\<lparr>regionRange := later\<rparr>) rest s1 = (r, s')"
            by (subst (asm) parseRegionsLoop_unfold) simp
          from "1.IH"(1)[OF Cons e[symmetric, folded enterRegion_eq] Ok True rec "1.prems"(2)] R1
          show ?thesis by (meson tr)
        next
          case False
          obtain rb s2 where b: "parseBlocks h rs1 s1 = (rb, s2)"
            by (cases "parseBlocks h rs1 s1") auto
          note R2 = tr[OF R1 pb[OF b]]
          show ?thesis
          proof (cases "\<exists>rs2. rb = Ok (rs2, None)")
            case True
            then obtain rs2 where rb: "rb = Ok (rs2, None)" by blast
            obtain rp s3 where p: "popTopScope rs2 s2 = (rp, s3)"
              by (cases "popTopScope rs2 s2") auto
            note R3 = tr[OF R2 pop[OF p]]
            show ?thesis
            proof (cases rp)
              case (Ok u)
              with run Cons e \<open>re = Ok rs1\<close> False b rb p
              have rec: "parseRegionsLoop h (rs2\<lparr>curBlock := None, regionRange := later\<rparr>) rest s3
                         = (r, s')"
                by (subst (asm) parseRegionsLoop_unfold) simp
              from "1.IH"(2)[OF Cons e[symmetric, folded enterRegion_eq] \<open>re = Ok rs1\<close> False
                  b[symmetric] rb refl refl p[symmetric] Ok rec "1.prems"(2)] R3
              show ?thesis by (meson tr)
            next
              case (Failed d)
              with run Cons e \<open>re = Ok rs1\<close> False b rb p have "s' = s3"
                by (subst (asm) parseRegionsLoop_unfold) simp
              with R3 show ?thesis by simp
            next
              case Crash
              with run Cons e \<open>re = Ok rs1\<close> False b rb p have "s' = s3"
                by (subst (asm) parseRegionsLoop_unfold) simp
              with R3 show ?thesis by simp
            qed
          next
            case noNone: False
            with run Cons e Ok False b have "protected s' = protected s2"
              by (subst (asm) parseRegionsLoop_unfold)
                 (auto simp add: protected_def
                  split: res.splits prod.splits option.splits if_splits)
            from tr[OF R2 framed_same[OF R this]] show ?thesis .
          qed
        qed
      next
        case (Failed d)
        with run Cons e have "s' = s1"
          by (subst (asm) parseRegionsLoop_unfold) simp
        with R1 show ?thesis by simp
      next
        case Crash
        with run Cons e have "s' = s1"
          by (subst (asm) parseRegionsLoop_unfold) simp
        with R1 show ?thesis by simp
      qed
    qed
  qed
  with opName show ?thesis by (simp add: keeps_def)
qed

lemma keeps_parseIRLoop:
  assumes R: "framed R" and opName: "keeps R (parseOpName h)"
  shows "keeps R (parseIRLoop h regionStack)"
proof -
  have "R s s'" if "parseIRLoop h regionStack s = (r, s')" "keeps R (parseOpName h)" for s r s'
    using that
  proof (induction h regionStack s arbitrary: r s' rule: parseIRLoop.induct)
    case (1 h regionStack s)
    note pr = keepsD[OF keeps_parseRegionsLoop[OF R "1.prems"(2)]]
    show ?case
    proof (cases regionStack)
      case Nil
      with "1.prems"(1) show ?thesis
        by (subst (asm) parseIRLoop.simps) (simp add: framed_refl[OF R])
    next
      case (Cons readState rest)
      obtain r1 s1 where p: "parseRegionsLoop h readState rest s = (r1, s1)"
        by (cases "parseRegionsLoop h readState rest s") auto
      show ?thesis
      proof (cases r1)
        case (Ok regionStack')
        with "1.prems"(1) Cons p have rec: "parseIRLoop h regionStack' s1 = (r, s')"
          by (subst (asm) parseIRLoop.simps) simp
        from "1.IH"[OF Cons p[symmetric] Ok rec "1.prems"(2)] pr[OF p]
        show ?thesis by (meson framed_trans[OF R])
      next
        case (Failed d)
        with "1.prems"(1) Cons p have "s' = s1"
          by (subst (asm) parseIRLoop.simps) simp
        with pr[OF p] show ?thesis by simp
      next
        case Crash
        with "1.prems"(1) Cons p have "s' = s1"
          by (subst (asm) parseIRLoop.simps) simp
        with pr[OF p] show ?thesis by simp
      qed
    qed
  qed
  with opName show ?thesis by (simp add: keeps_def)
qed

lemma keeps_createModuleOp:
  assumes R: "framed R"
  shows "keeps R (createModuleOp h)"
  unfolding createModuleOp_def
  by (auto intro!: keeps_intros[OF R] keeps_modify[OF R] keeps_host_ir[OF R]
      simp add: protected_def)

lemma keeps_parseModuleBody:
  assumes R: "framed R" and opName: "keeps R (parseOpName h)"
  shows "keeps R (parseModuleBody h sectionData)"
  unfolding parseModuleBody_def
  by (auto intro!: keeps_intros[OF R] keeps_modify[OF R] keeps_createModuleOp[OF R]
        keeps_parseBlock[OF R] keeps_scopes[OF R] keeps_parseIRLoop[OF R opName]
      simp add: protected_def)

lemma keeps_modify_rel: "(\<And>s. R s (g s)) \<Longrightarrow> keeps R (modify g)"
  by (simp add: keeps_def modify_def)

lemma keeps_parseVersion:
  assumes R: "framed R"
  shows "keeps R (parseVersion h)"
  unfolding parseVersion_def
  by (auto intro!: keeps_intros[OF R] keeps_modify[OF R] simp add: protected_def)

lemma keeps_parseStringSectionInto:
  assumes R: "framed R"
  shows "keeps R (parseStringSectionInto d)"
proof -
  have "R s (s\<lparr>strings := strs, stringData := d\<rparr>)" for s strs
    by (rule framed_same[OF R]) (simp add: protected_def)
  then show ?thesis
    by (auto simp add: keeps_def parseStringSectionInto_def framed_refl[OF R] split: sum.splits)
qed

lemma keeps_parseDialectGrouping:
  assumes R: "framed R" and cb: "\<And>d a. keeps R (cb d a)"
  shows "keeps R (parseDialectGrouping cb acc)"
  unfolding parseDialectGrouping_def
  by (auto intro!: keeps_intros[OF R] keeps_parseEntry[OF R] keeps_repeatM[OF R] cb)

lemma keeps_parseEntryFn:
  assumes R: "framed R"
  shows "keeps R (parseEntryFn sectionData d acc)"
  unfolding parseEntryFn_def
  by (auto intro!: keeps_intros[OF R] split: prod.splits)

lemma keeps_parseOpNameEntry:
  assumes R: "framed R"
  shows "keeps R (parseOpNameEntry d u)"
  unfolding parseOpNameEntry_def
  by (auto intro!: keeps_intros[OF R] keeps_modify[OF R] keeps_parseSharedString[OF R]
      simp add: protected_def)

lemma keeps_parseEntries:
  assumes R: "framed R"
  shows "keeps R (parseEntries sectionData acc)"
proof -
  note g = keepsD[OF keeps_parseDialectGrouping[OF R keeps_parseEntryFn[OF R]]]
  have "R s s'" if "parseEntries sectionData acc s = (r, s')" for s r s'
    using that
  proof (induction sectionData acc s arbitrary: r s' rule: parseEntries.induct)
    case (1 sectionData acc s)
    show ?case
    proof (cases "fst (snd acc) = length (fst acc)")
      case True
      with "1.prems" show ?thesis by (simp add: framed_refl[OF R])
    next
      case False
      obtain r1 s1 where p: "parseDialectGrouping (parseEntryFn sectionData) acc s = (r1, s1)"
        by (cases "parseDialectGrouping (parseEntryFn sectionData) acc s") auto
      show ?thesis
      proof (cases r1)
        case (Ok acc')
        with "1.prems" False p have rec: "parseEntries sectionData acc' s1 = (r, s')" by simp
        from "1.IH"[OF False p[symmetric] Ok rec] g[OF p] show ?thesis
          by (meson framed_trans[OF R])
      qed (use "1.prems" False p g[OF p] in auto)
    qed
  qed
  then show ?thesis by (simp add: keeps_def)
qed

lemma keeps_parseOpNameGroups:
  assumes R: "framed R"
  shows "keeps R parseOpNameGroups"
proof -
  note g = keepsD[OF keeps_parseDialectGrouping[OF R keeps_parseOpNameEntry[OF R]]]
  have "R s s'" if "parseOpNameGroups s = (r, s')" for s r s'
    using that
  proof (induction s arbitrary: r s' rule: parseOpNameGroups.induct)
    case (1 s)
    show ?case
    proof (cases "empty_r (rd s)")
      case True
      with "1.prems" show ?thesis by (simp add: framed_refl[OF R])
    next
      case False
      obtain r1 s1 where p: "parseDialectGrouping parseOpNameEntry () s = (r1, s1)"
        by (cases "parseDialectGrouping parseOpNameEntry () s") auto
      show ?thesis
      proof (cases r1)
        case (Ok u)
        with "1.prems" False p have rec: "parseOpNameGroups s1 = (r, s')" by simp
        from "1.IH"[OF False p[symmetric] Ok rec] g[OF p] show ?thesis
          by (meson framed_trans[OF R])
      qed (use "1.prems" False p g[OF p] in auto)
    qed
  qed
  then show ?thesis by (simp add: keeps_def)
qed

lemma keeps_initialize:
  assumes R: "framed R"
  shows "keeps R (initialize sectionData offsetSectionData)"
  unfolding initialize_def
  by (auto intro!: keeps_intros[OF R] keeps_modify[OF R] keeps_parseEntries[OF R]
      simp add: protected_def)

lemma framed_sameTarget: "framed sameTarget"
  by (simp add: framed_def sameTarget_def protected_def)

lemmas target_intros = keeps_intros[OF framed_sameTarget]

lemma target_load: "keeps sameTarget (load h d)"
  unfolding load_def
  by (auto intro!: target_intros keeps_modify_rel simp add: sameTarget_def Let_def
      split: option.splits)

lemma target_parseOpName: "keeps sameTarget (parseOpName h)"
  unfolding parseOpName_def
  by (auto intro!: target_intros keeps_modify_rel target_load
        keeps_parseEntry[OF framed_sameTarget]
      simp add: sameTarget_def split: option.splits prod.splits)

lemma target_parseDialectNames: "keeps sameTarget (parseDialectNames i n)"
  by (induction n arbitrary: i)
     (auto intro!: target_intros keeps_modify_rel keeps_parseSharedString[OF framed_sameTarget]
      simp add: sameTarget_def)

lemma target_parseDialectSection: "keeps sameTarget (parseDialectSection d)"
  unfolding parseDialectSection_def
  by (auto intro!: target_intros keeps_modify_rel target_parseDialectNames
        keeps_parseOpNameGroups[OF framed_sameTarget]
      simp add: sameTarget_def)

lemma bindE:
  assumes "bind m f s = (r, s')"
  obtains (ok) x s1 where "m s = (Ok x, s1)" "f x s1 = (r, s')"
  | (failed) d where "m s = (Failed d, s')" "r = Failed d"
  | (crashed) "m s = (Crash, s')" "r = Crash"
  using assms by (auto simp add: bind_def split: prod.splits res.splits)

lemma target_parseModuleBody: "keeps sameTarget (parseModuleBody h d)"
  by (rule keeps_parseModuleBody[OF framed_sameTarget target_parseOpName])

lemma parseIRSection_result:
  assumes "parseIRSection h d s = (r, s')"
  shows "\<exists>r1 s1. parseModuleBody h d s = (r1, s1) \<and>
           ((r \<noteq> Ok () \<and> s' = s1) \<or>
            (\<exists>module. r1 = Ok module \<and> r = Ok () \<and> forwardRefOps s1 = [] \<and>
               spliceParsedOps (snd module) s1 = (Ok (), s')))"
  using assms
  by (auto simp add: parseIRSection_def bind_def gets_def emitError_def spliceParsedOps_def
        modify_def
      split: prod.splits res.splits if_splits)

lemma read_result:
  assumes "read h buffer s = (r, s')"
  shows "(r \<noteq> Ok () \<and> target s' = target s) \<or>
         (\<exists>s0 irData. target s0 = target s \<and> parseIRSection h irData s0 = (r, s'))"
proof -
  note R = framed_sameTarget
  note facts =
    keepsD[OF keeps_withReader[OF R], unfolded sameTarget_def]
    keepsD[OF keeps_parseVersion[OF R], unfolded sameTarget_def]
    keepsD[OF keeps_parseStringSectionInto[OF R], unfolded sameTarget_def]
    keepsD[OF target_parseDialectSection, unfolded sameTarget_def]
    keepsD[OF keeps_initialize[OF R], unfolded sameTarget_def]
  from assms show ?thesis
    unfolding read_def
    apply (elim bindE)
    apply (auto simp add: modify_def emitError_def split: option.splits dest!: facts elim!: bindE)
    done
qed

section \<open>The destination block\<close>

text \<open>
  C5. \<open>parseIRSection\<close> reads the header of the module's body block before it pushes the
  first value scope. For \<open>file3\<close>, whose header announces block arguments, the definitions of
  the arguments run on an empty stack of value scopes, which is outside the defined
  behaviour of \<open>valueScopes.back()\<close>; \<open>parseBlockArguments\<close> on an empty stack crashes even
  for zero arguments, and the same file with a header without arguments (\<open>file4\<close>) reads.
\<close>

theorem module_header_read_before_scope:
  "fst (readBytecodeFile host0 file3 world0) = Crash
   \<and> fst (parseBlockArguments host0 0 (world0\<lparr>rd := [0x01], blocks := [\<lparr>b_args = [], b_ops = []\<rparr>]\<rparr>)) = Crash
   \<and> fst (readBytecodeFile host0 file4 world0) = Ok ()"
  by code_simp

text \<open>
  C4. When \<open>readBytecodeFile\<close> fails, at whatever stage, the destination block is what it
  was before the call; the failure carries the diagnostic that was emitted.
\<close>

theorem failed_read_leaves_target:
  assumes "readBytecodeFile h buffer s = (Failed d, s')"
  shows "target s' = target s"
proof (cases "isBytecode buffer")
  case False
  with assms show ?thesis by (simp add: readBytecodeFile_def emitError_def)
next
  case True
  with assms have "read h buffer (freshReader s) = (Failed d, s')"
    by (simp add: readBytecodeFile_def bind_def modify_def)
  from read_result[OF this] show ?thesis
  proof (elim disjE exE conjE)
    fix s0 irData
    assume t: "target s0 = target (freshReader s)"
      and run: "parseIRSection h irData s0 = (Failed d, s')"
    from parseIRSection_result[OF run] obtain r1 where "parseModuleBody h irData s0 = (r1, s')"
      by auto
    from keepsD[OF target_parseModuleBody this] t show ?thesis
      by (simp add: sameTarget_def freshReader_def)
  qed (simp add: freshReader_def)
qed

theorem failed_read_leaves_target_witness:
  "fst (readBytecodeFile host0 file2 world1) = Failed (ValueIndexRange 0 1 0xFFFFFFFFFFFFFFFF)
   \<and> target (snd (readBytecodeFile host0 file2 world1)) = target world1"
proof -
  have a: "fst (readBytecodeFile host0 file2 world1) = Failed (ValueIndexRange 0 1 0xFFFFFFFFFFFFFFFF)"
    by code_simp
  then have "readBytecodeFile host0 file2 world1
      = (Failed (ValueIndexRange 0 1 0xFFFFFFFFFFFFFFFF), snd (readBytecodeFile host0 file2 world1))"
    by (metis prod.collapse)
  from failed_read_leaves_target[OF this] a show ?thesis by simp
qed

lemma bind_assoc: "bind (bind m f) g = bind m (\<lambda>x. bind (f x) g)"
  by (auto simp add: bind_def fun_eq_iff split: prod.splits res.splits)

lemma bind_ret_left: "bind (ret x) f = f x"
  by (simp add: bind_def ret_def fun_eq_iff)

lemma bind_emitError: "bind (emitError d) f = emitError d"
  by (simp add: bind_def emitError_def fun_eq_iff)

lemma read_split: "read h buffer = bind (readTables h buffer) (parseIRSection h)"
  unfolding read_def readTables_def bind_assoc
  by (intro arg_cong2[where f = bind] refl ext)
     (simp add: bind_assoc bind_ret_left bind_emitError split: option.splits)

lemma parseModuleBody_module:
  assumes "parseModuleBody h d s = (Ok module, s1)"
  shows "module = (length (ops s), length (blocks s))"
  using assms
  unfolding parseModuleBody_def createModuleOp_def createBlock_def createRegions_def
    createOperation_def
  by (auto simp add: bind_def modify_def gets_def ret_def
      split: prod.splits res.splits)

lemma target_readTables: "keeps sameTarget (readTables h buffer)"
  unfolding readTables_def
  by (auto intro!: target_intros keeps_modify_rel keeps_parseVersion[OF framed_sameTarget]
        keeps_parseStringSectionInto[OF framed_sameTarget] target_parseDialectSection
        keeps_initialize[OF framed_sameTarget]
      simp add: sameTarget_def split: option.splits)

text \<open>
  C3, as the code has it. After a successful \<open>readBytecodeFile\<close>, let \<open>irData\<close> be the IR
  section that \<open>readTables\<close> found in the buffer and \<open>s1\<close> the state in which
  \<open>parseModuleBody\<close> left the module parsed from it, whose body is the block created first.
  The destination block is then the one before the call with the operations of that body
  inserted before its last operation when it was not empty, and it is that body when it
  was empty; the body itself is left without operations.
\<close>

theorem parsed_ops_spliced_before_last_op:
  assumes "readBytecodeFile h buffer s = (Ok (), s')"
  shows "\<exists>irData s0 s1.
           readTables h buffer (freshReader s) = (Ok irData, s0) \<and>
           parseModuleBody h irData s0 = (Ok (length (ops s0), length (blocks s0)), s1) \<and>
           target s1 = target s \<and>
           target s' =
             (if target s = [] then b_ops (blocks s1 ! length (blocks s0))
              else butlast (target s) @ b_ops (blocks s1 ! length (blocks s0)) @ [last (target s)]) \<and>
           blocks s' = (blocks s1)[length (blocks s0) := (blocks s1 ! length (blocks s0))\<lparr>b_ops := []\<rparr>]"
proof -
  from assms have b: "isBytecode buffer"
    by (auto simp add: readBytecodeFile_def emitError_def split: if_splits)
  with assms have "bind (readTables h buffer) (parseIRSection h) (freshReader s) = (Ok (), s')"
    by (simp add: readBytecodeFile_def bind_def modify_def read_split)
  then obtain irData s0 where
    tables: "readTables h buffer (freshReader s) = (Ok irData, s0)"
    and run: "parseIRSection h irData s0 = (Ok (), s')"
    by (elim bindE) simp_all
  from keepsD[OF target_readTables tables] have t: "target s0 = target s"
    by (simp add: sameTarget_def freshReader_def)
  from parseIRSection_result[OF run] obtain s1 module where
    m: "parseModuleBody h irData s0 = (Ok module, s1)"
    and sp: "spliceParsedOps (snd module) s1 = (Ok (), s')"
    by auto
  from parseModuleBody_module[OF m] have module: "module = (length (ops s0), length (blocks s0))" .
  from keepsD[OF target_parseModuleBody m] t have t1: "target s1 = target s"
    by (simp add: sameTarget_def)
  from sp t1 module have
    "target s' =
       (if target s = [] then b_ops (blocks s1 ! length (blocks s0))
        else butlast (target s) @ b_ops (blocks s1 ! length (blocks s0)) @ [last (target s)])"
    "blocks s' = (blocks s1)[length (blocks s0) := (blocks s1 ! length (blocks s0))\<lparr>b_ops := []\<rparr>]"
    by (auto simp add: spliceParsedOps_def modify_def)
  with tables m[unfolded module] t1 show ?thesis by blast
qed

theorem parsed_ops_spliced_before_last_op_witness:
  "fst (readBytecodeFile host0 file1 world1) = Ok ()
   \<and> target world1 = [0, 1]
   \<and> target (snd (readBytecodeFile host0 file1 world1)) = [0, 3, 1]
   \<and> (\<exists>irData s0 s1.
         readTables host0 file1 (freshReader world1) = (Ok irData, s0) \<and>
         parseModuleBody host0 irData s0 = (Ok (length (ops s0), length (blocks s0)), s1) \<and>
         b_ops (blocks s1 ! length (blocks s0)) = [3] \<and>
         target s1 = target world1 \<and>
         target (snd (readBytecodeFile host0 file1 world1)) =
           (if target world1 = [] then b_ops (blocks s1 ! length (blocks s0))
            else butlast (target world1) @ b_ops (blocks s1 ! length (blocks s0))
                 @ [last (target world1)]) \<and>
         blocks (snd (readBytecodeFile host0 file1 world1)) =
           (blocks s1)[length (blocks s0) := (blocks s1 ! length (blocks s0))\<lparr>b_ops := []\<rparr>])"
proof -
  have a: "fst (readBytecodeFile host0 file1 world1) = Ok ()"
    by code_simp
  have b: "target world1 = [0, 1]"
    by code_simp
  have c: "target (snd (readBytecodeFile host0 file1 world1)) = [0, 3, 1]"
    by code_simp
  from a have "readBytecodeFile host0 file1 world1 = (Ok (), snd (readBytecodeFile host0 file1 world1))"
    by (metis prod.collapse)
  from parsed_ops_spliced_before_last_op[OF this] obtain irData s0 s1 where
    r: "readTables host0 file1 (freshReader world1) = (Ok irData, s0)"
      "parseModuleBody host0 irData s0 = (Ok (length (ops s0), length (blocks s0)), s1)"
      "target s1 = target world1"
      "target (snd (readBytecodeFile host0 file1 world1)) =
           (if target world1 = [] then b_ops (blocks s1 ! length (blocks s0))
            else butlast (target world1) @ b_ops (blocks s1 ! length (blocks s0))
                 @ [last (target world1)])"
      "blocks (snd (readBytecodeFile host0 file1 world1)) =
           (blocks s1)[length (blocks s0) := (blocks s1 ! length (blocks s0))\<lparr>b_ops := []\<rparr>]"
    by blast
  from r(4) b c have "b_ops (blocks s1 ! length (blocks s0)) = [3]"
    by simp
  with a b c r show ?thesis by blast
qed

text \<open>
  C3, as the specification words it, fails: in \<open>world1\<close> the last operation of the
  destination is not a terminator, the specification puts the parsed operation \<open>3\<close> at the
  end, and the reader puts it before the last operation.
\<close>

theorem splice_ignores_terminator_counterexample:
  "fst (readBytecodeFile host0 file1 world1) = Ok ()
   \<and> target (snd (readBytecodeFile host0 file1 world1)) = [0, 3, 1]
   \<and> isReturn (ops world1 ! last (target world1)) = False
   \<and> claimedSplice isReturn (ops world1) (target world1) [3] = [0, 1, 3]"
  by code_simp

section \<open>Loading a dialect at most once\<close>

lemma after_simps [simp]:
  "after Rok Rany (Ok x) s s' = Rok s s'"
  "after Rok Rany (Failed d) s s' = Rany s s'"
  "after Rok Rany Crash s s' = Rany s s'"
  by (simp_all add: after_def)











































end
